theory Spec2Isabelle
  imports Main "HOL-Library.Word" "HOL-Library.Sublist" "HOL-Library.Multiset"
begin

unbundle bit_operations_syntax

section \<open>Indexed triangles\<close>

text \<open>
  The mesh shape stores its triangles as \<open>IndexedTriangle\<close>: three 32-bit vertex indices
  \<open>mIdx[0..2]\<close> and a 32-bit \<open>mMaterialIndex\<close>, which after the active edge analysis also
  carries the three active edge bits.
\<close>

type_synonym u32 = "32 word"
type_synonym u8 = "8 word"

record IndexedTriangle =
  mIdx :: "u32 \<times> u32 \<times> u32"
  mMaterialIndex :: u32

text \<open>\<open>mIdx[k]\<close> for \<open>k\<close> in 0, 1, 2.\<close>

definition mIdx_at :: "IndexedTriangle \<Rightarrow> nat \<Rightarrow> u32" where
  "mIdx_at t k = (case mIdx t of (a, b, c) \<Rightarrow> if k = 0 then a else if k = 1 then b else c)"

text \<open>
  Modelled from the spec: \<open>IndexedTriangle::IsDegenerate\<close>, declared in
  \<open>Geometry/IndexedTriangle.h\<close>, which is not among the sources. The spec: a triangle is
  degenerate when two or more of its vertex indices are equal.
\<close>

definition IsDegenerate :: "IndexedTriangle \<Rightarrow> bool" where
  "IsDegenerate t = (case mIdx t of (a, b, c) \<Rightarrow> a = b \<or> b = c \<or> c = a)"

text \<open>
  Modelled from the spec: \<open>IndexedTriangle::GetLowestIndexFirst\<close>, declared in
  \<open>Geometry/IndexedTriangle.h\<close>, which is not among the sources. The spec: the index triple
  is rotated so that the smallest vertex index comes first, the winding kept. The function
  returns an \<open>IndexedTriangle\<close>, as \<open>Sanitize\<close> inserts its result in an
  \<open>unordered_set<IndexedTriangle>\<close>: the material index goes along with the rotated indices.
\<close>

definition GetLowestIndexFirst :: "IndexedTriangle \<Rightarrow> IndexedTriangle" where
  "GetLowestIndexFirst t =
     (case mIdx t of (a, b, c) \<Rightarrow>
        if a < b
        then (if a < c then \<lparr>mIdx = (a, b, c), mMaterialIndex = mMaterialIndex t\<rparr>
              else \<lparr>mIdx = (c, a, b), mMaterialIndex = mMaterialIndex t\<rparr>)
        else (if b < c then \<lparr>mIdx = (b, c, a), mMaterialIndex = mMaterialIndex t\<rparr>
              else \<lparr>mIdx = (c, a, b), mMaterialIndex = mMaterialIndex t\<rparr>))"

section \<open>MeshShapeSettings::Sanitize\<close>

text \<open>\<open>vector::erase(begin() + t)\<close>.\<close>

definition erase :: "'a list \<Rightarrow> nat \<Rightarrow> 'a list" where
  "erase xs t = take t xs @ drop (Suc t) xs"

text \<open>
  The loop \<open>for (int t = size - 1; t >= 0; --t)\<close>: the first argument is \<open>t + 1\<close>, the second
  the set \<open>triangles\<close>, the third \<open>mIndexedTriangles\<close>. The set holds whole \<open>IndexedTriangle\<close>
  values, the rotated indices with the material index, and \<open>insert\<close> finds a value in it when
  the three indices and the material index all agree. The \<open>||\<close> of the source
  short-circuits, so a degenerate triangle is never inserted in the set.
\<close>

fun Sanitize_loop ::
  "nat \<Rightarrow> IndexedTriangle set \<Rightarrow> IndexedTriangle list \<Rightarrow> IndexedTriangle list" where
  "Sanitize_loop 0 triangles mIndexedTriangles = mIndexedTriangles"
| "Sanitize_loop (Suc t) triangles mIndexedTriangles =
     (let tri = mIndexedTriangles ! t in
      if IsDegenerate tri \<or> GetLowestIndexFirst tri \<in> triangles
      then Sanitize_loop t triangles (erase mIndexedTriangles t)
      else Sanitize_loop t (insert (GetLowestIndexFirst tri) triangles) mIndexedTriangles)"

definition Sanitize :: "IndexedTriangle list \<Rightarrow> IndexedTriangle list" where
  "Sanitize mIndexedTriangles = Sanitize_loop (length mIndexedTriangles) {} mIndexedTriangles"

text \<open>
  The two readings of "the survivor of each canonical triple". \<open>retain_first\<close> follows the
  words of the spec: a triangle is kept when it is not degenerate and no earlier triangle of
  the input has its canonical triple. \<open>retain_last\<close> is what the loop does: it keeps a triangle
  when it is not degenerate and no later triangle of the input has its canonical form. The
  canonical form is the value that \<open>GetLowestIndexFirst\<close> returns, the canonical triple
  together with the material index.
\<close>

fun retain_first :: "(u32 \<times> u32 \<times> u32) list \<Rightarrow> IndexedTriangle list \<Rightarrow> IndexedTriangle list" where
  "retain_first seen [] = []"
| "retain_first seen (x # xs) =
     (if IsDegenerate x \<or> mIdx (GetLowestIndexFirst x) \<in> set seen then retain_first seen xs
      else x # retain_first (mIdx (GetLowestIndexFirst x) # seen) xs)"

fun retain_last :: "IndexedTriangle list \<Rightarrow> IndexedTriangle list" where
  "retain_last [] = []"
| "retain_last (x # xs) =
     (if IsDegenerate x \<or> GetLowestIndexFirst x \<in> GetLowestIndexFirst ` set xs then retain_last xs
      else x # retain_last xs)"

subsection \<open>Properties of Sanitize\<close>

lemma canonical_form:
  "GetLowestIndexFirst u = GetLowestIndexFirst t
     \<longleftrightarrow> mIdx (GetLowestIndexFirst u) = mIdx (GetLowestIndexFirst t)
         \<and> mMaterialIndex u = mMaterialIndex t"
proof -
  have m: "mMaterialIndex (GetLowestIndexFirst x) = mMaterialIndex x" for x
    by (cases "mIdx x") (simp add: GetLowestIndexFirst_def)
  show ?thesis
    using m [of u] m [of t] by (auto intro: IndexedTriangle.equality)
qed

lemma canonical_degenerate:
  "GetLowestIndexFirst u = GetLowestIndexFirst t \<Longrightarrow> IsDegenerate u = IsDegenerate t"
proof -
  assume "GetLowestIndexFirst u = GetLowestIndexFirst t"
  then have "mIdx (GetLowestIndexFirst u) = mIdx (GetLowestIndexFirst t)" by simp
  then show ?thesis
    by (cases "mIdx u"; cases "mIdx t")
       (auto simp: GetLowestIndexFirst_def IsDegenerate_def split: if_splits)
qed

text \<open>What the backwards loop computes, as a forward pass over the reversed prefix.\<close>

fun scan :: "IndexedTriangle set \<Rightarrow> IndexedTriangle list \<Rightarrow> IndexedTriangle list" where
  "scan S [] = []"
| "scan S (y # ys) =
     (if IsDegenerate y \<or> GetLowestIndexFirst y \<in> S then scan S ys
      else y # scan (insert (GetLowestIndexFirst y) S) ys)"

lemma Sanitize_loop_scan:
  "n \<le> length xs \<Longrightarrow> Sanitize_loop n S xs = rev (scan S (rev (take n xs))) @ drop n xs"
proof (induction n arbitrary: S xs)
  case 0
  then show ?case by simp
next
  case (Suc n)
  then have n: "n < length xs" by simp
  have tk: "rev (take (Suc n) xs) = xs ! n # rev (take n xs)"
    using n by (simp add: take_Suc_conv_app_nth)
  have dr: "drop n xs = xs ! n # drop (Suc n) xs"
    using n by (simp add: Cons_nth_drop_Suc)
  show ?case
  proof (cases "IsDegenerate (xs ! n) \<or> GetLowestIndexFirst (xs ! n) \<in> S")
    case True
    have len: "n \<le> length (erase xs n)" using n by (simp add: erase_def)
    have t1: "take n (erase xs n) = take n xs" using n by (simp add: erase_def)
    have d1: "drop n (erase xs n) = drop (Suc n) xs" using n by (simp add: erase_def)
    from True show ?thesis
      using Suc.IH [OF len, of S] by (simp add: tk t1 d1 Let_def)
  next
    case False
    have len: "n \<le> length xs" using n by simp
    from False show ?thesis
      using Suc.IH [OF len, of "insert (GetLowestIndexFirst (xs ! n)) S"]
      by (simp add: tk dr Let_def)
  qed
qed

lemma scan_append:
  "scan S (ys @ zs) =
     scan S ys @ scan (S \<union> GetLowestIndexFirst ` {y \<in> set ys. \<not> IsDegenerate y}) zs"
proof (induction ys arbitrary: S)
  case Nil
  then show ?case by simp
next
  case (Cons y ys)
  show ?case
  proof (cases "IsDegenerate y \<or> GetLowestIndexFirst y \<in> S")
    case True
    then have "S \<union> GetLowestIndexFirst ` {x \<in> set (y # ys). \<not> IsDegenerate x}
             = S \<union> GetLowestIndexFirst ` {x \<in> set ys. \<not> IsDegenerate x}"
      by auto
    with True Cons.IH [of S] show ?thesis by simp
  next
    case False
    then have "S \<union> GetLowestIndexFirst ` {x \<in> set (y # ys). \<not> IsDegenerate x}
             = insert (GetLowestIndexFirst y) S \<union> GetLowestIndexFirst ` {x \<in> set ys. \<not> IsDegenerate x}"
      by auto
    with False Cons.IH [of "insert (GetLowestIndexFirst y) S"] show ?thesis by simp
  qed
qed

lemma rev_scan_rev: "rev (scan {} (rev xs)) = retain_last xs"
proof (induction xs)
  case Nil
  then show ?case by simp
next
  case (Cons x xs)
  have eq: "\<not> IsDegenerate x \<Longrightarrow>
      (GetLowestIndexFirst x \<in> GetLowestIndexFirst ` {y \<in> set xs. \<not> IsDegenerate y})
      = (GetLowestIndexFirst x \<in> GetLowestIndexFirst ` set xs)"
    using canonical_degenerate by blast
  show ?case
    using Cons.IH eq by (auto simp: scan_append)
qed

lemma Sanitize_retain_last: "Sanitize xs = retain_last xs"
  using Sanitize_loop_scan [of "length xs" xs "{}"] by (simp add: Sanitize_def rev_scan_rev)

lemma subseq_retain_last: "subseq (retain_last xs) xs"
  by (induction xs) auto

lemma set_retain_last: "set (retain_last xs) \<subseteq> set xs"
  by (induction xs) auto

lemma retain_last_nondegenerate: "t \<in> set (retain_last xs) \<Longrightarrow> \<not> IsDegenerate t"
  by (induction xs) (auto split: if_splits)

lemma distinct_retain_last: "distinct (map GetLowestIndexFirst (retain_last xs))"
proof (induction xs)
  case Nil
  then show ?case by simp
next
  case (Cons x xs)
  then show ?case using set_retain_last [of xs] by auto
qed

lemma canonical_retain_last:
  "GetLowestIndexFirst ` set (retain_last xs)
     = GetLowestIndexFirst ` {t \<in> set xs. \<not> IsDegenerate t}"
proof (induction xs)
  case Nil
  then show ?case by simp
next
  case (Cons x xs)
  show ?case
  proof (cases "IsDegenerate x")
    case True
    then have "{t \<in> set (x # xs). \<not> IsDegenerate t} = {t \<in> set xs. \<not> IsDegenerate t}"
      by auto
    with True Cons.IH show ?thesis by simp
  next
    case False
    then have s: "{t \<in> set (x # xs). \<not> IsDegenerate t} = insert x {t \<in> set xs. \<not> IsDegenerate t}"
      by auto
    show ?thesis
    proof (cases "GetLowestIndexFirst x \<in> GetLowestIndexFirst ` set xs")
      case True
      then obtain u where u: "u \<in> set xs" "GetLowestIndexFirst u = GetLowestIndexFirst x"
        by auto
      with False have "\<not> IsDegenerate u" using canonical_degenerate by blast
      with u have "u \<in> {t \<in> set xs. \<not> IsDegenerate t}" by simp
      then have "GetLowestIndexFirst u \<in> GetLowestIndexFirst ` {t \<in> set xs. \<not> IsDegenerate t}"
        by (rule imageI)
      with u have "GetLowestIndexFirst x \<in> GetLowestIndexFirst ` {t \<in> set xs. \<not> IsDegenerate t}"
        by simp
      then have ab: "insert (GetLowestIndexFirst x) (GetLowestIndexFirst ` {t \<in> set xs. \<not> IsDegenerate t})
                   = GetLowestIndexFirst ` {t \<in> set xs. \<not> IsDegenerate t}"
        by (rule insert_absorb)
      from True have r: "retain_last (x # xs) = retain_last xs" by simp
      have "GetLowestIndexFirst ` set (retain_last (x # xs))
              = GetLowestIndexFirst ` {t \<in> set xs. \<not> IsDegenerate t}"
        by (simp only: r Cons.IH)
      also have "\<dots> = GetLowestIndexFirst ` insert x {t \<in> set xs. \<not> IsDegenerate t}"
        by (simp only: image_insert ab)
      finally show ?thesis by (simp only: s)
    next
      case nin: False
      with False have r: "retain_last (x # xs) = x # retain_last xs" by simp
      have "GetLowestIndexFirst ` set (retain_last (x # xs))
              = insert (GetLowestIndexFirst x) (GetLowestIndexFirst ` set (retain_last xs))"
        by (simp only: r list.set image_insert)
      also have "\<dots> = GetLowestIndexFirst ` insert x {t \<in> set xs. \<not> IsDegenerate t}"
        by (simp only: image_insert Cons.IH)
      finally show ?thesis by (simp only: s)
    qed
  qed
qed

text \<open>
  C1, as stated: the survivor of each canonical triple is its first occurrence in the input.
  The loop runs from the last triangle to the first and erases a triangle whose canonical
  form is already in the set, so of \<open>(0, 1, 2)\<close> followed by its rotation \<open>(1, 2, 0)\<close>, both
  with material 0, the second one survives, not the first.
\<close>

theorem Sanitize_first_occurrence_counterexample:
  "Sanitize [\<lparr>mIdx = (0, 1, 2), mMaterialIndex = 0\<rparr>, \<lparr>mIdx = (1, 2, 0), mMaterialIndex = 0\<rparr>]
     = [\<lparr>mIdx = (1, 2, 0), mMaterialIndex = 0\<rparr>]
   \<and> retain_first [] [\<lparr>mIdx = (0, 1, 2), mMaterialIndex = 0\<rparr>, \<lparr>mIdx = (1, 2, 0), mMaterialIndex = 0\<rparr>]
     = [\<lparr>mIdx = (0, 1, 2), mMaterialIndex = 0\<rparr>]
   \<and> Sanitize [\<lparr>mIdx = (0, 1, 2), mMaterialIndex = 0\<rparr>, \<lparr>mIdx = (1, 2, 0), mMaterialIndex = 0\<rparr>]
     \<noteq> retain_first [] [\<lparr>mIdx = (0, 1, 2), mMaterialIndex = 0\<rparr>, \<lparr>mIdx = (1, 2, 0), mMaterialIndex = 0\<rparr>]"
  by (simp add: Sanitize_def erase_def IsDegenerate_def GetLowestIndexFirst_def)

text \<open>
  The set compares whole values: two triangles with the same indices and different material
  indices are both kept.
\<close>

lemma Sanitize_keeps_each_material:
  "Sanitize [\<lparr>mIdx = (0, 1, 2), mMaterialIndex = 0\<rparr>, \<lparr>mIdx = (0, 1, 2), mMaterialIndex = 1\<rparr>]
     = [\<lparr>mIdx = (0, 1, 2), mMaterialIndex = 0\<rparr>, \<lparr>mIdx = (0, 1, 2), mMaterialIndex = 1\<rparr>]"
  by (simp add: Sanitize_def erase_def IsDegenerate_def GetLowestIndexFirst_def)

text \<open>
  C1, amended: for every input list, Sanitize produces a subsequence of it in which no
  triangle is degenerate and no two triangles have the same canonical form, that is, the
  same canonical triple and the same material index; every canonical form of a
  non-degenerate input triangle has a survivor, and the survivor is the last occurrence of
  that form in the input order (a triangle is kept exactly when it is not degenerate and no
  later triangle has its canonical form).
\<close>

theorem Sanitize_retains_last_occurrence:
  "Sanitize xs = retain_last xs
   \<and> subseq (Sanitize xs) xs
   \<and> (\<forall>t \<in> set (Sanitize xs). \<not> IsDegenerate t)
   \<and> distinct (map GetLowestIndexFirst (Sanitize xs))
   \<and> distinct (map (\<lambda>t. (mIdx (GetLowestIndexFirst t), mMaterialIndex t)) (Sanitize xs))
   \<and> GetLowestIndexFirst ` set (Sanitize xs)
       = GetLowestIndexFirst ` {t \<in> set xs. \<not> IsDegenerate t}"
proof -
  have d: "distinct (map GetLowestIndexFirst (retain_last xs))"
    by (rule distinct_retain_last)
  have "inj_on (\<lambda>t. (mIdx (GetLowestIndexFirst t), mMaterialIndex t)) (set (retain_last xs))"
  proof (rule inj_onI)
    fix u t
    assume u: "u \<in> set (retain_last xs)" and t: "t \<in> set (retain_last xs)"
      and e: "(mIdx (GetLowestIndexFirst u), mMaterialIndex u)
            = (mIdx (GetLowestIndexFirst t), mMaterialIndex t)"
    from e have "GetLowestIndexFirst u = GetLowestIndexFirst t"
      by (simp add: canonical_form)
    moreover have "inj_on GetLowestIndexFirst (set (retain_last xs))"
      using d by (simp add: distinct_map)
    ultimately show "u = t" using u t by (simp add: inj_on_def)
  qed
  moreover have "distinct (retain_last xs)" using d by (simp add: distinct_map)
  ultimately have "distinct (map (\<lambda>t. (mIdx (GetLowestIndexFirst t), mMaterialIndex t)) (retain_last xs))"
    by (simp add: distinct_map)
  then show ?thesis
    using subseq_retain_last [of xs] retain_last_nondegenerate [of _ xs]
      d canonical_retain_last [of xs]
    by (simp add: Sanitize_retain_last)
qed

theorem Sanitize_retains_last_occurrence_witness:
  "Sanitize [\<lparr>mIdx = (0, 1, 2), mMaterialIndex = 0\<rparr>, \<lparr>mIdx = (3, 3, 4), mMaterialIndex = 0\<rparr>,
             \<lparr>mIdx = (0, 1, 2), mMaterialIndex = 1\<rparr>, \<lparr>mIdx = (1, 2, 0), mMaterialIndex = 0\<rparr>]
     = [\<lparr>mIdx = (0, 1, 2), mMaterialIndex = 1\<rparr>, \<lparr>mIdx = (1, 2, 0), mMaterialIndex = 0\<rparr>]
   \<and> distinct (map GetLowestIndexFirst
        (Sanitize [\<lparr>mIdx = (0, 1, 2), mMaterialIndex = 0\<rparr>, \<lparr>mIdx = (3, 3, 4), mMaterialIndex = 0\<rparr>,
             \<lparr>mIdx = (0, 1, 2), mMaterialIndex = 1\<rparr>, \<lparr>mIdx = (1, 2, 0), mMaterialIndex = 0\<rparr>]))"
  using Sanitize_retains_last_occurrence
    [of "[\<lparr>mIdx = (0, 1, 2), mMaterialIndex = 0\<rparr>, \<lparr>mIdx = (3, 3, 4), mMaterialIndex = 0\<rparr>,
          \<lparr>mIdx = (0, 1, 2), mMaterialIndex = 1\<rparr>, \<lparr>mIdx = (1, 2, 0), mMaterialIndex = 0\<rparr>]"]
  by (simp add: IsDegenerate_def GetLowestIndexFirst_def)

section \<open>MeshShape::FindActiveEdges\<close>

text \<open>
  Modelled from the spec: the constants \<open>FLAGS_MATERIAL_MASK\<close>, \<open>FLAGS_ACTIVE_EGDE_SHIFT\<close>,
  \<open>FLAGS_ACTIVE_EDGE_MASK\<close>, \<open>NumTriangleBits\<close> (declared in \<open>MeshShape.h\<close>) and
  \<open>SubShapeID::MaxBits\<close> (declared in \<open>SubShapeID.h\<close>) are not among the sources. The spec
  names them \<open>MaterialMask\<close>, \<open>ActiveEdgeShift\<close>, \<open>ActiveEdgeMask\<close>, \<open>NumTriangleBits\<close> and
  \<open>MaxSubShapeBits\<close> without fixing their values, so they are parameters of the model.
\<close>

record constants =
  FLAGS_MATERIAL_MASK :: nat
  FLAGS_ACTIVE_EGDE_SHIFT :: nat
  FLAGS_ACTIVE_EDGE_MASK :: nat
  NumTriangleBits :: nat
  MaxBits :: nat

text \<open>
  The vector operations that the analysis consumes are external (\<open>Plane::sFromPointsCCW\<close>
  followed by \<open>GetNormal\<close>, \<open>Vec3::operator -\<close>, \<open>ActiveEdges::IsEdgeActive\<close>): they work on
  floating point vectors and are parameters over a type \<open>'v\<close> of vectors. The order in which
  an \<open>unordered_map\<close> is iterated depends on its hash function and is a parameter as well.
\<close>

type_synonym Edge = "int \<times> int"

record 'v geometry =
  sFromPointsCCW_GetNormal :: "'v \<Rightarrow> 'v \<Rightarrow> 'v \<Rightarrow> 'v"
  vec_minus :: "'v \<Rightarrow> 'v \<Rightarrow> 'v"
  IsEdgeActive :: "'v \<Rightarrow> 'v \<Rightarrow> 'v \<Rightarrow> bool"
  iteration_order :: "(Edge \<times> nat list) list \<Rightarrow> (Edge \<times> nat list) list"

text \<open>
  What can go wrong inside \<open>FindActiveEdges\<close>: the \<open>JPH_ASSERT(false)\<close> of
  \<open>Edge::GetIndexInTriangle\<close>, the \<open>JPH_ASSERT\<close> at the place where an edge bit is set, and a
  read beyond the end of a vector. \<open>InvalidSubShapeID\<close> is the \<open>JPH_ASSERT\<close> of
  \<open>DecodeSubShapeID\<close> and \<open>TooFewTrianglesRequested\<close> the \<open>JPH_ASSERT\<close> of \<open>GetTrianglesNext\<close>,
  both further down.
\<close>

datatype failure =
    EdgeNotInTriangle
  | EdgeBitAlreadySet
  | OutOfBounds
  | InvalidSubShapeID
  | TooFewTrianglesRequested

text \<open>
  The constructor \<open>Edge(int inIdx1, int inIdx2)\<close>; it is called with \<open>uint32\<close> indices, which
  the conversion to \<open>int\<close> reads as two's complement.
\<close>

definition Edge :: "u32 \<Rightarrow> u32 \<Rightarrow> Edge" where
  "Edge inIdx1 inIdx2 = (min (sint inIdx1) (sint inIdx2), max (sint inIdx1) (sint inIdx2))"

text \<open>\<open>Edge(inTriangle.mIdx[edge_idx], inTriangle.mIdx[(edge_idx + 1) % 3])\<close>\<close>

definition triangle_edge :: "IndexedTriangle \<Rightarrow> nat \<Rightarrow> Edge" where
  "triangle_edge inTriangle edge_idx =
     Edge (mIdx_at inTriangle edge_idx) (mIdx_at inTriangle ((edge_idx + 1) mod 3))"

definition GetIndexInTriangle :: "Edge \<Rightarrow> IndexedTriangle \<Rightarrow> failure + nat" where
  "GetIndexInTriangle this inTriangle =
     (case find (\<lambda>edge_idx. this = triangle_edge inTriangle edge_idx) [0, 1, 2] of
        Some edge_idx \<Rightarrow> Inr edge_idx
      | None \<Rightarrow> Inl EdgeNotInTriangle)"

text \<open>\<open>edge_to_triangle[edge].push_back(triangle_idx)\<close> on the map, kept as an association list.\<close>

fun push_back_at :: "Edge \<Rightarrow> nat \<Rightarrow> (Edge \<times> nat list) list \<Rightarrow> (Edge \<times> nat list) list" where
  "push_back_at edge triangle_idx [] = [(edge, [triangle_idx])]"
| "push_back_at edge triangle_idx ((k, v) # m) =
     (if k = edge then (k, v @ [triangle_idx]) # m else (k, v) # push_back_at edge triangle_idx m)"

definition add_triangle_edges ::
  "IndexedTriangle \<Rightarrow> nat \<Rightarrow> (Edge \<times> nat list) list \<Rightarrow> (Edge \<times> nat list) list" where
  "add_triangle_edges triangle triangle_idx m =
     fold (\<lambda>edge_idx. push_back_at (triangle_edge triangle edge_idx) triangle_idx) [0, 1, 2] m"

definition build_edge_to_triangle :: "IndexedTriangle list \<Rightarrow> (Edge \<times> nat list) list" where
  "build_edge_to_triangle ioIndices =
     fold (\<lambda>triangle_idx. add_triangle_edges (ioIndices ! triangle_idx) triangle_idx)
       [0..<length ioIndices] []"

text \<open>
  The three vertices \<open>e1\<close>, \<open>e2\<close>, \<open>op\<close> of a triangle, starting at the edge \<open>edge_idx\<close>:
  \<open>inVertices[triangle.mIdx[edge_idx]]\<close>, \<open>inVertices[triangle.mIdx[(edge_idx + 1) % 3]]\<close>,
  \<open>inVertices[triangle.mIdx[(edge_idx + 2) % 3]]\<close>.
\<close>

definition edge_vertices :: "'v list \<Rightarrow> IndexedTriangle \<Rightarrow> nat \<Rightarrow> failure + 'v \<times> 'v \<times> 'v" where
  "edge_vertices inVertices triangle edge_idx =
     (let i1 = unat (mIdx_at triangle edge_idx);
          i2 = unat (mIdx_at triangle ((edge_idx + 1) mod 3));
          i3 = unat (mIdx_at triangle ((edge_idx + 2) mod 3))
      in if i1 < length inVertices \<and> i2 < length inVertices \<and> i3 < length inVertices
         then Inr (inVertices ! i1, inVertices ! i2, inVertices ! i3)
         else Inl OutOfBounds)"

text \<open>The body of the loop over the edges, up to \<open>if (active)\<close>.\<close>

definition edge_active ::
  "'v geometry \<Rightarrow> 'v list \<Rightarrow> IndexedTriangle list \<Rightarrow> Edge \<times> nat list \<Rightarrow> failure + bool" where
  "edge_active G inVertices ioIndices edge =
     (if length (snd edge) = 1 then Inr True
      else if length (snd edge) = 2 then
        (if length ioIndices \<le> snd edge ! 0 \<or> length ioIndices \<le> snd edge ! 1 then Inl OutOfBounds
         else
           let triangle1 = ioIndices ! (snd edge ! 0);
               triangle2 = ioIndices ! (snd edge ! 1)
           in case GetIndexInTriangle (fst edge) triangle1 of Inl f \<Rightarrow> Inl f | Inr edge_idx1 \<Rightarrow>
              case GetIndexInTriangle (fst edge) triangle2 of Inl f \<Rightarrow> Inl f | Inr edge_idx2 \<Rightarrow>
              case edge_vertices inVertices triangle1 edge_idx1 of Inl f \<Rightarrow> Inl f
              | Inr (triangle1_e1, triangle1_e2, triangle1_op) \<Rightarrow>
              case edge_vertices inVertices triangle2 edge_idx2 of Inl f \<Rightarrow> Inl f
              | Inr (triangle2_e1, triangle2_e2, triangle2_op) \<Rightarrow>
                Inr (IsEdgeActive G
                      (sFromPointsCCW_GetNormal G triangle1_e1 triangle1_e2 triangle1_op)
                      (sFromPointsCCW_GetNormal G triangle2_e1 triangle2_e2 triangle2_op)
                      (vec_minus G triangle1_e2 triangle1_e1)))
      else Inr True)"

text \<open>
  The loop \<open>for (uint triangle_idx : edge.second)\<close> that marks the edge in its triangles;
  \<open>mask = 1 << (edge_idx + FLAGS_ACTIVE_EGDE_SHIFT)\<close>.
\<close>

fun mark_edge ::
  "constants \<Rightarrow> Edge \<Rightarrow> nat list \<Rightarrow> IndexedTriangle list \<Rightarrow> failure + IndexedTriangle list" where
  "mark_edge C edge [] ioIndices = Inr ioIndices"
| "mark_edge C edge (triangle_idx # rest) ioIndices =
     (if length ioIndices \<le> triangle_idx then Inl OutOfBounds
      else
        let triangle = ioIndices ! triangle_idx
        in case GetIndexInTriangle edge triangle of Inl f \<Rightarrow> Inl f | Inr edge_idx \<Rightarrow>
           let mask = push_bit (edge_idx + FLAGS_ACTIVE_EGDE_SHIFT C) (1 :: u32)
           in if mMaterialIndex triangle AND mask \<noteq> 0 then Inl EdgeBitAlreadySet
              else mark_edge C edge rest
                     (ioIndices[triangle_idx :=
                        triangle\<lparr>mMaterialIndex := mMaterialIndex triangle OR mask\<rparr>]))"

text \<open>The loop \<open>for (const EdgeToTriangle::value_type &edge : edge_to_triangle)\<close>.\<close>

fun walk_edges ::
  "constants \<Rightarrow> 'v geometry \<Rightarrow> 'v list \<Rightarrow> (Edge \<times> nat list) list \<Rightarrow> IndexedTriangle list
     \<Rightarrow> failure + IndexedTriangle list" where
  "walk_edges C G inVertices [] ioIndices = Inr ioIndices"
| "walk_edges C G inVertices (edge # rest) ioIndices =
     (case edge_active G inVertices ioIndices edge of
        Inl f \<Rightarrow> Inl f
      | Inr active \<Rightarrow>
          if active then
            (case mark_edge C (fst edge) (snd edge) ioIndices of
               Inl f \<Rightarrow> Inl f
             | Inr marked \<Rightarrow> walk_edges C G inVertices rest marked)
          else walk_edges C G inVertices rest ioIndices)"

definition FindActiveEdges ::
  "constants \<Rightarrow> 'v geometry \<Rightarrow> 'v list \<Rightarrow> IndexedTriangle list \<Rightarrow> failure + IndexedTriangle list" where
  "FindActiveEdges C G inVertices ioIndices =
     walk_edges C G inVertices (iteration_order G (build_edge_to_triangle ioIndices)) ioIndices"

subsection \<open>Edges of a triangle\<close>

lemma sint_eq_iff: "sint (a :: u32) = sint b \<longleftrightarrow> a = b"
  by (auto intro: signed_word_eqI)

lemma Edge_eq_iff: "Edge a b = Edge c d \<longleftrightarrow> (a = c \<and> b = d) \<or> (a = d \<and> b = c)"
  unfolding Edge_def by (auto simp: min_def max_def sint_eq_iff split: if_splits)

lemma mIdx_at_simps:
  "mIdx t = (a, b, c) \<Longrightarrow> mIdx_at t 0 = a"
  "mIdx t = (a, b, c) \<Longrightarrow> mIdx_at t (Suc 0) = b"
  "mIdx t = (a, b, c) \<Longrightarrow> mIdx_at t 2 = c"
  by (simp_all add: mIdx_at_def)

lemma triangle_edge_simps:
  "mIdx t = (a, b, c) \<Longrightarrow> triangle_edge t 0 = Edge a b"
  "mIdx t = (a, b, c) \<Longrightarrow> triangle_edge t (Suc 0) = Edge b c"
  "mIdx t = (a, b, c) \<Longrightarrow> triangle_edge t 2 = Edge c a"
  by (simp_all add: triangle_edge_def mIdx_at_def)

lemma less_3_cases: "k < (3::nat) \<Longrightarrow> k = 0 \<or> k = Suc 0 \<or> k = 2"
  by arith

lemma triangle_edge_inj:
  assumes "\<not> IsDegenerate t" "i < 3" "j < 3" "triangle_edge t i = triangle_edge t j"
  shows "i = j"
proof -
  obtain a b c where m: "mIdx t = (a, b, c)" by (cases "mIdx t")
  with assms(1) have d: "a \<noteq> b" "b \<noteq> c" "c \<noteq> a" by (auto simp: IsDegenerate_def)
  from less_3_cases [OF assms(2)] less_3_cases [OF assms(3)] assms(4) d
  show ?thesis
    by (auto simp: triangle_edge_simps [OF m] Edge_eq_iff)
qed

lemma GetIndexInTriangle_Inr:
  "GetIndexInTriangle e t = Inr k \<Longrightarrow> k < 3 \<and> e = triangle_edge t k"
  by (auto simp: GetIndexInTriangle_def split: if_splits)

lemma GetIndexInTriangle_Inl:
  "GetIndexInTriangle e t = Inl f \<Longrightarrow>
     f = EdgeNotInTriangle \<and> e \<noteq> triangle_edge t 0 \<and> e \<noteq> triangle_edge t 1 \<and> e \<noteq> triangle_edge t 2"
  by (auto simp: GetIndexInTriangle_def split: if_splits)

lemma GetIndexInTriangle_edge:
  assumes "\<not> IsDegenerate t" "k < 3"
  shows "GetIndexInTriangle (triangle_edge t k) t = Inr k"
proof -
  have "\<And>j. j < 3 \<Longrightarrow> triangle_edge t k = triangle_edge t j \<longleftrightarrow> k = j"
    using triangle_edge_inj [OF assms(1) assms(2)] by blast
  then have "triangle_edge t k = triangle_edge t 0 \<longleftrightarrow> k = 0"
    "triangle_edge t k = triangle_edge t 1 \<longleftrightarrow> k = 1"
    "triangle_edge t k = triangle_edge t 2 \<longleftrightarrow> k = 2"
    by simp_all
  with less_3_cases [OF assms(2)] show ?thesis
    by (auto simp: GetIndexInTriangle_def)
qed

lemma GetIndexInTriangle_contains:
  assumes "k < 3"
  shows "\<exists>j. GetIndexInTriangle (triangle_edge t k) t = Inr j"
  using less_3_cases [OF assms] by (auto simp: GetIndexInTriangle_def)

subsection \<open>The edge map\<close>

definition edge_slots :: "IndexedTriangle list \<Rightarrow> (Edge \<times> nat) list" where
  "edge_slots tris =
     concat (map (\<lambda>ti. map (\<lambda>k. (triangle_edge (tris ! ti) k, ti)) [0, 1, 2]) [0..<length tris])"

lemma fold_concat_map: "fold (\<lambda>x. fold f (g x)) xs m = fold f (concat (map g xs)) m"
  by (induction xs arbitrary: m) simp_all

lemma build_edge_to_triangle_slots:
  "build_edge_to_triangle tris = fold (\<lambda>p. push_back_at (fst p) (snd p)) (edge_slots tris) []"
proof -
  have "(\<lambda>ti. add_triangle_edges (tris ! ti) ti)
          = (\<lambda>ti. fold (\<lambda>p. push_back_at (fst p) (snd p))
                     (map (\<lambda>k. (triangle_edge (tris ! ti) k, ti)) [0, 1, 2]))"
    by (rule ext, rule ext) (simp only: add_triangle_edges_def fold_map comp_def fst_conv snd_conv)
  then show ?thesis
    by (simp only: build_edge_to_triangle_def edge_slots_def fold_concat_map)
qed

lemma keys_push_back_at: "fst ` set (push_back_at e ti m) = insert e (fst ` set m)"
proof (induction m)
  case Nil
  then show ?case by simp
next
  case (Cons p m)
  obtain k v where p: "p = (k, v)" by (cases p)
  from Cons show ?case
    by (cases "k = e") (simp_all add: p insert_commute)
qed

lemma distinct_push_back_at: "distinct (map fst m) \<Longrightarrow> distinct (map fst (push_back_at e ti m))"
proof (induction m)
  case Nil
  then show ?case by simp
next
  case (Cons p m)
  obtain k v where p: "p = (k, v)" by (cases p)
  from Cons show ?case
    by (cases "k = e") (simp_all add: p keys_push_back_at)
qed

lemma map_of_push_back_at:
  "map_of (push_back_at e ti m) e' =
     (if e' = e then Some ((case map_of m e of None \<Rightarrow> [] | Some v \<Rightarrow> v) @ [ti]) else map_of m e')"
proof (induction m)
  case Nil
  then show ?case by simp
next
  case (Cons p m)
  obtain k v where p: "p = (k, v)" by (cases p)
  from Cons show ?case
    by (cases "k = e"; cases "e' = e") (simp_all add: p)
qed

lemma map_of_fold_push:
  "map_of (fold (\<lambda>p. push_back_at (fst p) (snd p)) ps m) e =
     (if filter (\<lambda>p. fst p = e) ps = [] then map_of m e
      else Some ((case map_of m e of None \<Rightarrow> [] | Some v \<Rightarrow> v) @ map snd (filter (\<lambda>p. fst p = e) ps)))"
proof (induction ps arbitrary: m)
  case Nil
  then show ?case by simp
next
  case (Cons p ps)
  show ?case
    by (simp add: Cons.IH map_of_push_back_at)
qed

lemma distinct_fold_push:
  "distinct (map fst m) \<Longrightarrow> distinct (map fst (fold (\<lambda>p. push_back_at (fst p) (snd p)) ps m))"
  by (induction ps arbitrary: m) (simp_all add: distinct_push_back_at)

lemma distinct_build_edge_to_triangle: "distinct (map fst (build_edge_to_triangle tris))"
  by (simp add: build_edge_to_triangle_slots distinct_fold_push)

definition occurrences :: "IndexedTriangle list \<Rightarrow> Edge \<Rightarrow> nat list" where
  "occurrences tris e = map snd (filter (\<lambda>p. fst p = e) (edge_slots tris))"

lemma build_edge_to_triangle_entry:
  "(e, l) \<in> set (build_edge_to_triangle tris) \<longleftrightarrow> l = occurrences tris e \<and> l \<noteq> []"
proof -
  have "(e, l) \<in> set (build_edge_to_triangle tris) \<longleftrightarrow> map_of (build_edge_to_triangle tris) e = Some l"
    using distinct_build_edge_to_triangle [of tris] by simp
  also have "\<dots> \<longleftrightarrow> l = occurrences tris e \<and> l \<noteq> []"
    by (auto simp: build_edge_to_triangle_slots map_of_fold_push occurrences_def)
  finally show ?thesis .
qed

subsection \<open>Incident triangles\<close>

definition has_edge :: "IndexedTriangle \<Rightarrow> Edge \<Rightarrow> bool" where
  "has_edge t e = (e = triangle_edge t 0 \<or> e = triangle_edge t 1 \<or> e = triangle_edge t 2)"

definition incident_triangles :: "IndexedTriangle list \<Rightarrow> Edge \<Rightarrow> nat list" where
  "incident_triangles tris e = filter (\<lambda>ti. has_edge (tris ! ti) e) [0..<length tris]"

lemma concat_map_if_singleton: "concat (map (\<lambda>x. if P x then [x] else []) xs) = filter P xs"
  by (induction xs) simp_all

lemma slots_of_triangle:
  assumes "\<not> IsDegenerate t"
  shows "map snd (filter (\<lambda>p. fst p = e) (map (\<lambda>k. (triangle_edge t k, ti)) [0, 1, 2]))
           = (if has_edge t e then [ti] else [])"
proof -
  have "triangle_edge t 0 \<noteq> triangle_edge t (Suc 0)"
    using triangle_edge_inj [OF assms, of 0 "Suc 0"] by auto
  moreover have "triangle_edge t (Suc 0) \<noteq> triangle_edge t 2"
    using triangle_edge_inj [OF assms, of "Suc 0" 2] by auto
  moreover have "triangle_edge t 0 \<noteq> triangle_edge t 2"
    using triangle_edge_inj [OF assms, of 0 2] by auto
  ultimately show ?thesis
    by (auto simp: has_edge_def)
qed

lemma occurrences_incident:
  assumes "\<forall>t \<in> set tris. \<not> IsDegenerate t"
  shows "occurrences tris e = incident_triangles tris e"
proof -
  have "occurrences tris e
      = concat (map (\<lambda>ti. map snd (filter (\<lambda>p. fst p = e)
                  (map (\<lambda>k. (triangle_edge (tris ! ti) k, ti)) [0, 1, 2]))) [0..<length tris])"
    by (simp only: occurrences_def edge_slots_def filter_concat map_concat map_map comp_def)
  also have "\<dots> = concat (map (\<lambda>ti. if has_edge (tris ! ti) e then [ti] else []) [0..<length tris])"
  proof -
    have "map (\<lambda>ti. map snd (filter (\<lambda>p. fst p = e)
                  (map (\<lambda>k. (triangle_edge (tris ! ti) k, ti)) [0, 1, 2]))) [0..<length tris]
        = map (\<lambda>ti. if has_edge (tris ! ti) e then [ti] else []) [0..<length tris]"
    proof (rule map_cong [OF refl])
      fix ti
      assume "ti \<in> set [0..<length tris]"
      then have "\<not> IsDegenerate (tris ! ti)" using assms by simp
      then show "map snd (filter (\<lambda>p. fst p = e) (map (\<lambda>k. (triangle_edge (tris ! ti) k, ti)) [0, 1, 2]))
                   = (if has_edge (tris ! ti) e then [ti] else [])"
        by (rule slots_of_triangle)
    qed
    then show ?thesis by (simp only:)
  qed
  also have "\<dots> = incident_triangles tris e"
    by (simp only: concat_map_if_singleton incident_triangles_def)
  finally show ?thesis .
qed

lemma has_edge_iff: "has_edge t e \<longleftrightarrow> (\<exists>k<3. e = triangle_edge t k)"
proof
  assume "has_edge t e"
  then show "\<exists>k<3. e = triangle_edge t k"
    unfolding has_edge_def by (auto intro: exI [of _ 0] exI [of _ 1] exI [of _ 2])
next
  assume "\<exists>k<3. e = triangle_edge t k"
  then obtain k where "k < 3" "e = triangle_edge t k" by blast
  with less_3_cases [of k] show "has_edge t e"
    by (auto simp: has_edge_def)
qed

subsection \<open>Marking an edge\<close>

lemma mask_test: "(w AND push_bit n 1 \<noteq> 0) = bit w n" for w :: u32
  by (simp only: bit_iff_and_push_bit_not_eq_0)

lemma bit_mark: "n < 32 \<Longrightarrow> bit (w OR push_bit n 1) j \<longleftrightarrow> bit w j \<or> j = n" for w :: u32
  by (auto simp: bit_or_iff bit_exp_iff)

lemma triangle_edge_cong: "mIdx t = mIdx t' \<Longrightarrow> triangle_edge t k = triangle_edge t' k"
  by (simp add: triangle_edge_def mIdx_at_def)

lemma GetIndexInTriangle_cong:
  "mIdx t = mIdx t' \<Longrightarrow> GetIndexInTriangle e t = GetIndexInTriangle e t'"
  using triangle_edge_cong [of t t'] by (simp add: GetIndexInTriangle_def)

lemma edge_vertices_cong:
  "mIdx t = mIdx t' \<Longrightarrow> edge_vertices vs t k = edge_vertices vs t' k"
  by (simp add: edge_vertices_def mIdx_at_def)

lemma edge_active_cong:
  assumes "length io = length tris" "\<forall>i<length tris. mIdx (io ! i) = mIdx (tris ! i)"
  shows "edge_active G vs io ent = edge_active G vs tris ent"
proof (cases "length (snd ent) = 2 \<and> snd ent ! 0 < length tris \<and> snd ent ! 1 < length tris")
  case True
  then have m: "mIdx (io ! (snd ent ! 0)) = mIdx (tris ! (snd ent ! 0))"
    "mIdx (io ! (snd ent ! 1)) = mIdx (tris ! (snd ent ! 1))"
    using assms(2) by simp_all
  have g: "GetIndexInTriangle (fst ent) (io ! (snd ent ! 0)) = GetIndexInTriangle (fst ent) (tris ! (snd ent ! 0))"
    "GetIndexInTriangle (fst ent) (io ! (snd ent ! 1)) = GetIndexInTriangle (fst ent) (tris ! (snd ent ! 1))"
    by (rule GetIndexInTriangle_cong, fact)+
  have v: "\<And>k. edge_vertices vs (io ! (snd ent ! 0)) k = edge_vertices vs (tris ! (snd ent ! 0)) k"
    "\<And>k. edge_vertices vs (io ! (snd ent ! 1)) k = edge_vertices vs (tris ! (snd ent ! 1)) k"
    by (rule edge_vertices_cong, fact)+
  show ?thesis
    unfolding edge_active_def Let_def g v assms(1) by (rule refl)
next
  case False
  then show ?thesis
    using assms(1) by (auto simp: edge_active_def Let_def)
qed

definition valid_entry :: "IndexedTriangle list \<Rightarrow> Edge \<times> nat list \<Rightarrow> bool" where
  "valid_entry tris ent =
     (distinct (snd ent) \<and> (\<forall>ti \<in> set (snd ent). ti < length tris \<and> has_edge (tris ! ti) (fst ent)))"

lemma has_edge_GetIndexInTriangle:
  "has_edge t e \<Longrightarrow> \<exists>k. GetIndexInTriangle e t = Inr k"
  by (auto simp: has_edge_def GetIndexInTriangle_def)

lemma edge_active_failure:
  assumes "valid_entry tris ent" "edge_active G vs tris ent = Inl f"
  shows "f = OutOfBounds"
proof (cases "length (snd ent) = 2")
  case True
  then obtain a b where l: "snd ent = [a, b]"
    by (metis One_nat_def Suc_1 length_0_conv length_Suc_conv)
  with assms(1) have "a < length tris" "b < length tris" "has_edge (tris ! a) (fst ent)" "has_edge (tris ! b) (fst ent)"
    by (simp_all add: valid_entry_def)
  then obtain k1 k2 where "GetIndexInTriangle (fst ent) (tris ! a) = Inr k1"
    "GetIndexInTriangle (fst ent) (tris ! b) = Inr k2"
    using has_edge_GetIndexInTriangle by blast
  with assms(2) l \<open>a < length tris\<close> \<open>b < length tris\<close> show ?thesis
    by (auto simp: edge_active_def Let_def edge_vertices_def split: sum.splits if_splits prod.splits)
next
  case False
  with assms(2) show ?thesis
    by (auto simp: edge_active_def split: if_splits)
qed

lemma mark_edge_spec:
  assumes sh: "FLAGS_ACTIVE_EGDE_SHIFT C + 2 < 32"
  shows "distinct l \<Longrightarrow>
     \<forall>ti \<in> set l. ti < length io \<and>
        (\<exists>k. GetIndexInTriangle e (io ! ti) = Inr k \<and>
             \<not> bit (mMaterialIndex (io ! ti)) (k + FLAGS_ACTIVE_EGDE_SHIFT C)) \<Longrightarrow>
     \<exists>io'. mark_edge C e l io = Inr io' \<and> length io' = length io \<and>
       (\<forall>i<length io. mIdx (io' ! i) = mIdx (io ! i) \<and>
          (\<forall>j. bit (mMaterialIndex (io' ! i)) j \<longleftrightarrow>
             bit (mMaterialIndex (io ! i)) j \<or>
             (i \<in> set l \<and> GetIndexInTriangle e (io ! i) = Inr (j - FLAGS_ACTIVE_EGDE_SHIFT C)
                \<and> FLAGS_ACTIVE_EGDE_SHIFT C \<le> j)))"
proof (induction l arbitrary: io)
  case Nil
  then show ?case by simp
next
  case (Cons ti rest)
  let ?sh = "FLAGS_ACTIVE_EGDE_SHIFT C"
  from Cons.prems obtain k where ti: "ti < length io"
    and k: "GetIndexInTriangle e (io ! ti) = Inr k"
    and clear: "\<not> bit (mMaterialIndex (io ! ti)) (k + ?sh)"
    by auto
  from k have k3: "k < 3" using GetIndexInTriangle_Inr by blast
  with sh have n32: "k + ?sh < 32" by simp
  define t' where "t' = (io ! ti)\<lparr>mMaterialIndex := mMaterialIndex (io ! ti) OR push_bit (k + ?sh) 1\<rparr>"
  define io1 where "io1 = io[ti := t']"
  have step: "mark_edge C e (ti # rest) io = mark_edge C e rest io1"
    using ti k clear by (simp add: Let_def mask_test io1_def t'_def del: push_bit_of_1)
  have other: "\<And>i. i \<noteq> ti \<Longrightarrow> io1 ! i = io ! i" by (simp add: io1_def)
  have len1: "length io1 = length io" by (simp add: io1_def)
  have at: "io1 ! ti = t'" using ti by (simp add: io1_def)
  from Cons.prems have d: "distinct rest" "ti \<notin> set rest" by simp_all
  have pre: "\<forall>tj \<in> set rest. tj < length io1 \<and>
        (\<exists>k. GetIndexInTriangle e (io1 ! tj) = Inr k \<and>
             \<not> bit (mMaterialIndex (io1 ! tj)) (k + ?sh))"
  proof
    fix tj assume tj: "tj \<in> set rest"
    with d have "tj \<noteq> ti" by auto
    with Cons.prems(2) tj show "tj < length io1 \<and>
        (\<exists>k. GetIndexInTriangle e (io1 ! tj) = Inr k \<and>
             \<not> bit (mMaterialIndex (io1 ! tj)) (k + ?sh))"
      by (simp add: other len1)
  qed
  from Cons.IH [OF d(1) pre] obtain io' where io':
    "mark_edge C e rest io1 = Inr io'" "length io' = length io1"
    "\<forall>i<length io1. mIdx (io' ! i) = mIdx (io1 ! i) \<and>
          (\<forall>j. bit (mMaterialIndex (io' ! i)) j \<longleftrightarrow>
             bit (mMaterialIndex (io1 ! i)) j \<or>
             (i \<in> set rest \<and> GetIndexInTriangle e (io1 ! i) = Inr (j - ?sh) \<and> ?sh \<le> j))"
    by blast
  have "\<forall>i<length io. mIdx (io' ! i) = mIdx (io ! i) \<and>
          (\<forall>j. bit (mMaterialIndex (io' ! i)) j \<longleftrightarrow>
             bit (mMaterialIndex (io ! i)) j \<or>
             (i \<in> set (ti # rest) \<and> GetIndexInTriangle e (io ! i) = Inr (j - ?sh) \<and> ?sh \<le> j))"
  proof (intro allI impI)
    fix i assume i: "i < length io"
    show "mIdx (io' ! i) = mIdx (io ! i) \<and>
          (\<forall>j. bit (mMaterialIndex (io' ! i)) j \<longleftrightarrow>
             bit (mMaterialIndex (io ! i)) j \<or>
             (i \<in> set (ti # rest) \<and> GetIndexInTriangle e (io ! i) = Inr (j - ?sh) \<and> ?sh \<le> j))"
    proof (cases "i = ti")
      case True
      have m: "mIdx (io' ! ti) = mIdx (io ! ti)"
        using io'(3) ti by (simp add: len1 at t'_def)
      have b: "bit (mMaterialIndex (io' ! ti)) j \<longleftrightarrow> bit (mMaterialIndex (io ! ti)) j \<or> j = k + ?sh" for j
      proof -
        have "bit (mMaterialIndex (io' ! ti)) j \<longleftrightarrow> bit (mMaterialIndex t') j"
          using io'(3) ti d(2) by (simp add: len1 at)
        also have "\<dots> \<longleftrightarrow> bit (mMaterialIndex (io ! ti)) j \<or> j = k + ?sh"
          using bit_mark [OF n32] by (simp add: t'_def del: push_bit_of_1)
        finally show ?thesis .
      qed
      have "(GetIndexInTriangle e (io ! ti) = Inr (j - ?sh) \<and> ?sh \<le> j) \<longleftrightarrow> j = k + ?sh" for j
        using k by auto
      with m b True show ?thesis by simp
    next
      case False
      with io'(3) i show ?thesis by (simp add: len1 other)
    qed
  qed
  with io'(1,2) step len1 show ?case by simp
qed

subsection \<open>The loop over the edges\<close>

lemma walk_edges_spec:
  assumes sh: "FLAGS_ACTIVE_EGDE_SHIFT C + 2 < 32"
  shows "distinct (map fst es) \<Longrightarrow>
     \<forall>ent \<in> set es. valid_entry tris ent \<Longrightarrow>
     length io = length tris \<Longrightarrow>
     \<forall>i<length tris. mIdx (io ! i) = mIdx (tris ! i) \<Longrightarrow>
     \<forall>ent \<in> set es. \<forall>ti \<in> set (snd ent). \<forall>k.
        GetIndexInTriangle (fst ent) (tris ! ti) = Inr k \<longrightarrow>
        \<not> bit (mMaterialIndex (io ! ti)) (k + FLAGS_ACTIVE_EGDE_SHIFT C) \<Longrightarrow>
     (case walk_edges C G vs es io of
        Inl f \<Rightarrow> f = OutOfBounds \<and> (\<exists>ent \<in> set es. edge_active G vs tris ent = Inl OutOfBounds)
      | Inr out \<Rightarrow> length out = length tris \<and>
          (\<forall>i<length tris. mIdx (out ! i) = mIdx (tris ! i) \<and>
             (\<forall>j. bit (mMaterialIndex (out ! i)) j \<longleftrightarrow>
                bit (mMaterialIndex (io ! i)) j \<or>
                (\<exists>ent \<in> set es. edge_active G vs tris ent = Inr True \<and> i \<in> set (snd ent) \<and>
                   GetIndexInTriangle (fst ent) (tris ! i) = Inr (j - FLAGS_ACTIVE_EGDE_SHIFT C) \<and>
                   FLAGS_ACTIVE_EGDE_SHIFT C \<le> j))))"
proof (induction es arbitrary: io)
  case Nil
  then show ?case by simp
next
  case (Cons ent es)
  let ?sh = "FLAGS_ACTIVE_EGDE_SHIFT C"
  have ea: "edge_active G vs io ent = edge_active G vs tris ent"
    using Cons.prems(3,4) by (rule edge_active_cong)
  have valid: "valid_entry tris ent" using Cons.prems(2) by simp
  have gi: "\<And>i e. i < length tris \<Longrightarrow> GetIndexInTriangle e (io ! i) = GetIndexInTriangle e (tris ! i)"
    using Cons.prems(4) GetIndexInTriangle_cong by blast
  have d: "distinct (map fst es)" "fst ent \<notin> fst ` set es"
    using Cons.prems(1) by simp_all
  have v: "\<forall>ent \<in> set es. valid_entry tris ent" using Cons.prems(2) by simp
  show ?case
  proof (cases "edge_active G vs tris ent")
    case (Inl f)
    then have "f = OutOfBounds" using edge_active_failure [OF valid] by blast
    with Inl ea show ?thesis by simp
  next
    case (Inr active)
    show ?thesis
    proof (cases active)
      case False
      have pre: "\<forall>ent \<in> set es. \<forall>ti \<in> set (snd ent). \<forall>k.
        GetIndexInTriangle (fst ent) (tris ! ti) = Inr k \<longrightarrow>
        \<not> bit (mMaterialIndex (io ! ti)) (k + ?sh)"
        using Cons.prems(5) by simp
      have w: "walk_edges C G vs (ent # es) io = walk_edges C G vs es io"
        using Inr False ea by simp
      from Cons.IH [OF d(1) v Cons.prems(3,4) pre] Inr False show ?thesis
        unfolding w by (auto split: sum.splits)
    next
      case True
      have mpre: "\<forall>ti \<in> set (snd ent). ti < length io \<and>
        (\<exists>k. GetIndexInTriangle (fst ent) (io ! ti) = Inr k \<and>
             \<not> bit (mMaterialIndex (io ! ti)) (k + ?sh))"
      proof
        fix ti assume ti: "ti \<in> set (snd ent)"
        with valid have lt: "ti < length tris" and he: "has_edge (tris ! ti) (fst ent)"
          by (simp_all add: valid_entry_def)
        from he obtain k where k: "GetIndexInTriangle (fst ent) (tris ! ti) = Inr k"
          using has_edge_GetIndexInTriangle by blast
        with Cons.prems(5) ti have "\<not> bit (mMaterialIndex (io ! ti)) (k + ?sh)" by simp
        with k lt show "ti < length io \<and>
          (\<exists>k. GetIndexInTriangle (fst ent) (io ! ti) = Inr k \<and>
             \<not> bit (mMaterialIndex (io ! ti)) (k + ?sh))"
          by (simp add: gi Cons.prems(3))
      qed
      have dl: "distinct (snd ent)" using valid by (simp add: valid_entry_def)
      from mark_edge_spec [OF sh dl mpre] obtain io1 where io1:
        "mark_edge C (fst ent) (snd ent) io = Inr io1" "length io1 = length io"
        "\<forall>i<length io. mIdx (io1 ! i) = mIdx (io ! i) \<and>
          (\<forall>j. bit (mMaterialIndex (io1 ! i)) j \<longleftrightarrow>
             bit (mMaterialIndex (io ! i)) j \<or>
             (i \<in> set (snd ent) \<and> GetIndexInTriangle (fst ent) (io ! i) = Inr (j - ?sh) \<and> ?sh \<le> j))"
        by blast
      have w: "walk_edges C G vs (ent # es) io = walk_edges C G vs es io1"
        using Inr True ea io1(1) by simp
      have len1: "length io1 = length tris" using io1(2) Cons.prems(3) by simp
      have m1: "\<forall>i<length tris. mIdx (io1 ! i) = mIdx (tris ! i)"
        using io1(3) Cons.prems(3,4) by simp
      have b1: "\<And>i j. i < length tris \<Longrightarrow> bit (mMaterialIndex (io1 ! i)) j \<longleftrightarrow>
             bit (mMaterialIndex (io ! i)) j \<or>
             (i \<in> set (snd ent) \<and> GetIndexInTriangle (fst ent) (tris ! i) = Inr (j - ?sh) \<and> ?sh \<le> j)"
        using io1(3) Cons.prems(3) by (simp add: gi)
      have pre: "\<forall>ent' \<in> set es. \<forall>ti \<in> set (snd ent'). \<forall>k.
        GetIndexInTriangle (fst ent') (tris ! ti) = Inr k \<longrightarrow>
        \<not> bit (mMaterialIndex (io1 ! ti)) (k + ?sh)"
      proof (intro ballI allI impI)
        fix ent' ti k
        assume e': "ent' \<in> set es" and ti: "ti \<in> set (snd ent')"
          and k: "GetIndexInTriangle (fst ent') (tris ! ti) = Inr k"
        from v e' ti have lt: "ti < length tris" by (simp add: valid_entry_def)
        from Cons.prems(5) e' ti k have c: "\<not> bit (mMaterialIndex (io ! ti)) (k + ?sh)" by simp
        have "GetIndexInTriangle (fst ent) (tris ! ti) \<noteq> Inr k"
        proof
          assume "GetIndexInTriangle (fst ent) (tris ! ti) = Inr k"
          then have "fst ent = triangle_edge (tris ! ti) k" using GetIndexInTriangle_Inr by blast
          moreover from k have "fst ent' = triangle_edge (tris ! ti) k" using GetIndexInTriangle_Inr by blast
          ultimately have "fst ent = fst ent'" by simp
          with e' d(2) show False by auto
        qed
        with c show "\<not> bit (mMaterialIndex (io1 ! ti)) (k + ?sh)"
          by (simp add: b1 [OF lt])
      qed
      from Cons.IH [OF d(1) v len1 m1 pre] Inr True show ?thesis
        unfolding w by (auto simp: b1 split: sum.splits)
    qed
  qed
qed

section \<open>The constructor of MeshShape\<close>

record ('v, 'm) MeshShapeSettings =
  mTriangleVertices :: "'v list"
  mIndexedTriangles :: "IndexedTriangle list"
  settings_mMaterials :: "'m list"

record ('m, 'tree) MeshShape =
  mMaterials :: "'m list"
  mTree :: 'tree

text \<open>
  The errors that the constructor reports with \<open>outResult.SetError\<close>, in the order of the
  source: "Need triangles to create a mesh shape!", "Triangle %d is degenerate!", "Vertex
  index %u is beyond vertex list (size: %u)", "Supporting max %d materials per mesh",
  "Triangle material %u is beyond material list (size: %u)", "No materials present, all
  triangles should have material index 0", the error of \<open>AABBTreeToBuffer::Convert\<close>, and "Mesh
  is too big and exceeds the amount of available sub shape ID bits". \<open>Crash\<close> is a failure inside
  \<open>FindActiveEdges\<close>.
\<close>

datatype error =
    EmptyInput
  | DegenerateTriangle nat
  | IndexOutOfRange u32 nat
  | TooManyMaterials nat
  | MaterialOutOfRange u32 nat
  | MissingMaterialNonZero
  | EncodingFailure string
  | MeshTooLarge
  | Crash failure

text \<open>
  The tree is built by external code (\<open>TriangleSplitterBinning\<close>, \<open>AABBTreeBuilder\<close>,
  \<open>AABBTreeToBuffer::Convert\<close>), which turns the vertices and the flagged triangles into the
  byte buffer \<open>mTree\<close> or an error message; \<open>NodeCodec::DecodingContext::sTriangleBlockIDBits\<close>
  reads the number of bits of a block id from the buffer, \<open>sGetTriangleBlockStart\<close> finds the
  leaf block with a given id, and \<open>TriangleCodec::DecodingContext::sGetFlags\<close> reads the flag
  byte of one triangle of a block (nothing, when the block has no such triangle).
\<close>

record ('v, 'tree, 'block) tree_codec =
  Convert :: "'v list \<Rightarrow> IndexedTriangle list \<Rightarrow> string + 'tree"
  sTriangleBlockIDBits :: "'tree \<Rightarrow> nat"
  sGetTriangleBlockStart :: "'tree \<Rightarrow> nat \<Rightarrow> 'block"
  sGetFlags :: "'block \<Rightarrow> nat \<Rightarrow> u8 option"

text \<open>The loop \<open>for (int i = 0; i < 3; ++i)\<close> over the vertex indices of one triangle.\<close>

definition check_vertex_indices :: "'v list \<Rightarrow> IndexedTriangle \<Rightarrow> error option" where
  "check_vertex_indices inVertices triangle =
     (case find (\<lambda>i. length inVertices \<le> unat (mIdx_at triangle i)) [0, 1, 2] of
        Some i \<Rightarrow> Some (IndexOutOfRange (mIdx_at triangle i) (length inVertices))
      | None \<Rightarrow> None)"

text \<open>The loop \<open>for (int t = size - 1; t >= 0; --t)\<close> that checks the triangles; the first argument is \<open>t + 1\<close>.\<close>

fun check_triangles :: "nat \<Rightarrow> 'v list \<Rightarrow> IndexedTriangle list \<Rightarrow> error option" where
  "check_triangles 0 inVertices tris = None"
| "check_triangles (Suc t) inVertices tris =
     (let triangle = tris ! t in
      if IsDegenerate triangle then Some (DegenerateTriangle t)
      else case check_vertex_indices inVertices triangle of
             Some e \<Rightarrow> Some e
           | None \<Rightarrow> check_triangles t inVertices tris)"

text \<open>The validation of the materials, \<open>if (!mMaterials.empty()) ... else ...\<close>.\<close>

definition check_materials :: "constants \<Rightarrow> 'm list \<Rightarrow> IndexedTriangle list \<Rightarrow> error option" where
  "check_materials C materials tris =
     (if materials \<noteq> [] then
        (if length materials > FLAGS_MATERIAL_MASK C
         then Some (TooManyMaterials (FLAGS_ACTIVE_EDGE_MASK C + 1))
         else case find (\<lambda>t. length materials \<le> unat (mMaterialIndex t)) tris of
                Some t \<Rightarrow> Some (MaterialOutOfRange (mMaterialIndex t) (length materials))
              | None \<Rightarrow> None)
      else case find (\<lambda>t. mMaterialIndex t \<noteq> 0) tris of
             Some t \<Rightarrow> Some MissingMaterialNonZero
           | None \<Rightarrow> None)"

definition MeshShape_ctor ::
  "constants \<Rightarrow> 'v geometry \<Rightarrow> ('v, 'tree, 'block) tree_codec \<Rightarrow> ('v, 'm) MeshShapeSettings
     \<Rightarrow> error + ('m, 'tree) MeshShape" where
  "MeshShape_ctor C G B inSettings =
     (if mIndexedTriangles inSettings = [] then Inl EmptyInput
      else
        case check_triangles (length (mIndexedTriangles inSettings))
               (mTriangleVertices inSettings) (mIndexedTriangles inSettings) of
          Some e \<Rightarrow> Inl e
        | None \<Rightarrow>
        case check_materials C (settings_mMaterials inSettings) (mIndexedTriangles inSettings) of
          Some e \<Rightarrow> Inl e
        | None \<Rightarrow>
        case FindActiveEdges C G (mTriangleVertices inSettings) (mIndexedTriangles inSettings) of
          Inl f \<Rightarrow> Inl (Crash f)
        | Inr indexed_triangles \<Rightarrow>
        case Convert B (mTriangleVertices inSettings) indexed_triangles of
          Inl err \<Rightarrow> Inl (EncodingFailure err)
        | Inr tree \<Rightarrow>
            if sTriangleBlockIDBits B tree + NumTriangleBits C > MaxBits C then Inl MeshTooLarge
            else Inr \<lparr>mMaterials = settings_mMaterials inSettings, mTree = tree\<rparr>)"

subsection \<open>The active edges in the words of the spec\<close>

text \<open>
  An edge is classified by the triangles that contain it: with one incident triangle it is
  active, with two it is active when \<open>IsEdgeActive\<close> holds of the plane normals of the two
  triangles (each taken counter-clockwise from the three vertices of the triangle, starting
  at the edge) and the direction of the edge in the first one, with three or more it is
  active.
\<close>

definition edge_position :: "IndexedTriangle \<Rightarrow> Edge \<Rightarrow> nat" where
  "edge_position t e = (if e = triangle_edge t 0 then 0 else if e = triangle_edge t 1 then 1 else 2)"

definition vertex_from :: "'v list \<Rightarrow> IndexedTriangle \<Rightarrow> Edge \<Rightarrow> nat \<Rightarrow> 'v" where
  "vertex_from vs t e n = vs ! unat (mIdx_at t ((edge_position t e + n) mod 3))"

definition plane_normal :: "'v geometry \<Rightarrow> 'v list \<Rightarrow> IndexedTriangle \<Rightarrow> Edge \<Rightarrow> 'v" where
  "plane_normal G vs t e =
     sFromPointsCCW_GetNormal G (vertex_from vs t e 0) (vertex_from vs t e 1) (vertex_from vs t e 2)"

definition edge_direction :: "'v geometry \<Rightarrow> 'v list \<Rightarrow> IndexedTriangle \<Rightarrow> Edge \<Rightarrow> 'v" where
  "edge_direction G vs t e = vec_minus G (vertex_from vs t e 1) (vertex_from vs t e 0)"

definition edge_is_active :: "'v geometry \<Rightarrow> 'v list \<Rightarrow> IndexedTriangle list \<Rightarrow> Edge \<Rightarrow> bool" where
  "edge_is_active G vs tris e =
     (let incident = incident_triangles tris e in
      if length incident = 1 then True
      else if length incident = 2 then
        IsEdgeActive G (plane_normal G vs (tris ! (incident ! 0)) e)
          (plane_normal G vs (tris ! (incident ! 1)) e)
          (edge_direction G vs (tris ! (incident ! 0)) e)
      else True)"

subsection \<open>What FindActiveEdges computes\<close>

lemma edge_position_GetIndexInTriangle:
  "has_edge t e \<Longrightarrow> GetIndexInTriangle e t = Inr (edge_position t e)"
  by (auto simp: has_edge_def GetIndexInTriangle_def edge_position_def)

lemma edge_position_less: "edge_position t e < 3"
  by (simp add: edge_position_def)

definition vertices_in_range :: "'v list \<Rightarrow> IndexedTriangle list \<Rightarrow> bool" where
  "vertices_in_range vs tris = (\<forall>t \<in> set tris. \<forall>k<3. unat (mIdx_at t k) < length vs)"

lemma edge_vertices_in_range:
  assumes "\<forall>k<3. unat (mIdx_at t k) < length vs" "has_edge t e"
  shows "edge_vertices vs t (edge_position t e)
           = Inr (vertex_from vs t e 0, vertex_from vs t e 1, vertex_from vs t e 2)"
proof -
  have "(edge_position t e + n) mod 3 < 3" for n by simp
  with assms(1) have "unat (mIdx_at t ((edge_position t e + n) mod 3)) < length vs" for n
    by blast
  from this [of 0] this [of 1] this [of 2] edge_position_less [of t e] show ?thesis
    by (simp add: edge_vertices_def vertex_from_def Let_def)
qed

lemma incident_triangles_valid: "valid_entry tris (e, incident_triangles tris e)"
  by (simp add: valid_entry_def incident_triangles_def)

lemma edge_active_incident:
  assumes "vertices_in_range vs tris"
  shows "edge_active G vs tris (e, incident_triangles tris e) = Inr (edge_is_active G vs tris e)"
proof (cases "length (incident_triangles tris e) = 2")
  case True
  then obtain a b where l: "incident_triangles tris e = [a, b]"
    by (metis One_nat_def Suc_1 length_0_conv length_Suc_conv)
  have "a \<in> set (incident_triangles tris e)" "b \<in> set (incident_triangles tris e)"
    by (simp_all add: l)
  then have ab: "a < length tris" "b < length tris" "has_edge (tris ! a) e" "has_edge (tris ! b) e"
    by (simp_all add: incident_triangles_def)
  then have r: "\<forall>k<3. unat (mIdx_at (tris ! a) k) < length vs" "\<forall>k<3. unat (mIdx_at (tris ! b) k) < length vs"
    using assms by (simp_all add: vertices_in_range_def)
  show ?thesis
    using ab(1,2)
    by (simp add: edge_active_def edge_is_active_def l Let_def
        edge_position_GetIndexInTriangle [OF ab(3)] edge_position_GetIndexInTriangle [OF ab(4)]
        edge_vertices_in_range [OF r(1) ab(3)] edge_vertices_in_range [OF r(2) ab(4)]
        plane_normal_def edge_direction_def)
next
  case False
  then show ?thesis
    by (simp add: edge_active_def edge_is_active_def Let_def)
qed

lemma entry_incident:
  assumes "\<forall>t \<in> set tris. \<not> IsDegenerate t"
  shows "ent \<in> set (build_edge_to_triangle tris) \<longleftrightarrow>
           snd ent = incident_triangles tris (fst ent) \<and> incident_triangles tris (fst ent) \<noteq> []"
  using build_edge_to_triangle_entry [of "fst ent" "snd ent" tris] occurrences_incident [OF assms]
  by auto

lemma FindActiveEdges_spec:
  assumes sh: "FLAGS_ACTIVE_EGDE_SHIFT C + 2 < 32"
    and nondeg: "\<forall>t \<in> set tris. \<not> IsDegenerate t"
    and perm: "mset (iteration_order G (build_edge_to_triangle tris)) = mset (build_edge_to_triangle tris)"
    and clear: "\<forall>t \<in> set tris. \<forall>k<3. \<not> bit (mMaterialIndex t) (k + FLAGS_ACTIVE_EGDE_SHIFT C)"
  shows "case FindActiveEdges C G vs tris of
      Inl f \<Rightarrow> f = OutOfBounds \<and> \<not> vertices_in_range vs tris
    | Inr out \<Rightarrow> length out = length tris \<and>
        (\<forall>i<length tris. mIdx (out ! i) = mIdx (tris ! i) \<and>
           (\<forall>j. bit (mMaterialIndex (out ! i)) j \<longleftrightarrow>
              bit (mMaterialIndex (tris ! i)) j \<or>
              (\<exists>k<3. j = k + FLAGS_ACTIVE_EGDE_SHIFT C \<and>
                 edge_active G vs tris (triangle_edge (tris ! i) k,
                   incident_triangles tris (triangle_edge (tris ! i) k)) = Inr True)))"
proof -
  let ?sh = "FLAGS_ACTIVE_EGDE_SHIFT C"
  let ?m = "build_edge_to_triangle tris"
  let ?es = "iteration_order G ?m"
  have set_es: "set ?es = set ?m" using perm by (rule mset_eq_setD)
  have "mset (map fst ?es) = mset (map fst ?m)" using perm by (metis mset_map)
  then have d: "distinct (map fst ?es)"
    using distinct_build_edge_to_triangle [of tris] by (metis mset_eq_imp_distinct_iff)
  have inc: "\<And>ent. ent \<in> set ?es \<Longrightarrow> snd ent = incident_triangles tris (fst ent)"
    using entry_incident [OF nondeg] set_es by blast
  have v: "\<forall>ent \<in> set ?es. valid_entry tris ent"
  proof
    fix ent assume "ent \<in> set ?es"
    then have "ent = (fst ent, incident_triangles tris (fst ent))" using inc by (metis prod.collapse)
    then show "valid_entry tris ent" using incident_triangles_valid by metis
  qed
  have c: "\<forall>ent \<in> set ?es. \<forall>ti \<in> set (snd ent). \<forall>k.
        GetIndexInTriangle (fst ent) (tris ! ti) = Inr k \<longrightarrow>
        \<not> bit (mMaterialIndex (tris ! ti)) (k + ?sh)"
  proof (intro ballI allI impI)
    fix ent ti k
    assume ent: "ent \<in> set ?es" and ti: "ti \<in> set (snd ent)"
      and k: "GetIndexInTriangle (fst ent) (tris ! ti) = Inr k"
    from v ent ti have "ti < length tris" by (simp add: valid_entry_def)
    then have "tris ! ti \<in> set tris" by simp
    moreover from k have "k < 3" using GetIndexInTriangle_Inr by blast
    ultimately show "\<not> bit (mMaterialIndex (tris ! ti)) (k + ?sh)" using clear by blast
  qed
  have key: "(\<exists>ent \<in> set ?es. edge_active G vs tris ent = Inr True \<and> i \<in> set (snd ent) \<and>
                   GetIndexInTriangle (fst ent) (tris ! i) = Inr (j - ?sh) \<and> ?sh \<le> j)
        \<longleftrightarrow> (\<exists>k<3. j = k + ?sh \<and>
                 edge_active G vs tris (triangle_edge (tris ! i) k,
                   incident_triangles tris (triangle_edge (tris ! i) k)) = Inr True)"
    (is "?L \<longleftrightarrow> ?R") if i: "i < length tris" for i j
  proof
    assume ?L
    then obtain ent where ent: "ent \<in> set ?es" "edge_active G vs tris ent = Inr True"
      "GetIndexInTriangle (fst ent) (tris ! i) = Inr (j - ?sh)" "?sh \<le> j"
      by blast
    from ent(3) have k: "j - ?sh < 3" "fst ent = triangle_edge (tris ! i) (j - ?sh)"
      using GetIndexInTriangle_Inr by blast+
    have "ent = (fst ent, incident_triangles tris (fst ent))"
      using inc [OF ent(1)] by (metis prod.collapse)
    with ent(2) k(2) have "edge_active G vs tris (triangle_edge (tris ! i) (j - ?sh),
                   incident_triangles tris (triangle_edge (tris ! i) (j - ?sh))) = Inr True"
      by simp
    with k(1) ent(4) show ?R by (intro exI [of _ "j - ?sh"]) simp
  next
    assume ?R
    then obtain k where k: "k < 3" "j = k + ?sh"
      "edge_active G vs tris (triangle_edge (tris ! i) k,
                   incident_triangles tris (triangle_edge (tris ! i) k)) = Inr True"
      by blast
    let ?e = "triangle_edge (tris ! i) k"
    have he: "has_edge (tris ! i) ?e" using k(1) has_edge_iff by blast
    with i have mem: "i \<in> set (incident_triangles tris ?e)" by (simp add: incident_triangles_def)
    then have "incident_triangles tris ?e \<noteq> []" by auto
    then have "(?e, incident_triangles tris ?e) \<in> set ?m"
      using entry_incident [OF nondeg, of "(?e, incident_triangles tris ?e)"] by simp
    then have in_es: "(?e, incident_triangles tris ?e) \<in> set ?es" using set_es by simp
    from i nondeg have "\<not> IsDegenerate (tris ! i)" by simp
    then have "GetIndexInTriangle ?e (tris ! i) = Inr k" using k(1) by (rule GetIndexInTriangle_edge)
    with in_es k mem show ?L
      by (intro bexI [of _ "(?e, incident_triangles tris ?e)"]) simp_all
  qed
  have w: "FindActiveEdges C G vs tris = walk_edges C G vs ?es tris"
    by (simp add: FindActiveEdges_def)
  show ?thesis
  proof (cases "walk_edges C G vs ?es tris")
    case (Inl f)
    with walk_edges_spec [OF sh d v refl _ c, of G vs]
    obtain ent where f: "f = OutOfBounds" and ent: "ent \<in> set ?es"
      "edge_active G vs tris ent = Inl OutOfBounds"
      by auto
    have "ent = (fst ent, incident_triangles tris (fst ent))"
      using inc [OF ent(1)] by (metis prod.collapse)
    with ent(2) have "\<not> vertices_in_range vs tris"
      using edge_active_incident [of vs tris G "fst ent"] by auto
    with f Inl show ?thesis by (simp add: w)
  next
    case (Inr out)
    with walk_edges_spec [OF sh d v refl _ c, of G vs]
    have "length out = length tris \<and>
          (\<forall>i<length tris. mIdx (out ! i) = mIdx (tris ! i) \<and>
             (\<forall>j. bit (mMaterialIndex (out ! i)) j \<longleftrightarrow>
                bit (mMaterialIndex (tris ! i)) j \<or>
                (\<exists>ent \<in> set ?es. edge_active G vs tris ent = Inr True \<and> i \<in> set (snd ent) \<and>
                   GetIndexInTriangle (fst ent) (tris ! i) = Inr (j - ?sh) \<and> ?sh \<le> j)))"
      by simp
    then have "length out = length tris \<and>
        (\<forall>i<length tris. mIdx (out ! i) = mIdx (tris ! i) \<and>
           (\<forall>j. bit (mMaterialIndex (out ! i)) j \<longleftrightarrow>
              bit (mMaterialIndex (tris ! i)) j \<or>
              (\<exists>k<3. j = k + ?sh \<and>
                 edge_active G vs tris (triangle_edge (tris ! i) k,
                   incident_triangles tris (triangle_edge (tris ! i) k)) = Inr True)))"
      using key by simp
    with Inr show ?thesis by (simp add: w)
  qed
qed


subsection \<open>What the validation of the constructor establishes\<close>

lemma check_vertex_indices_None:
  "check_vertex_indices vs t = None \<Longrightarrow> k < 3 \<Longrightarrow> unat (mIdx_at t k) < length vs"
  using less_3_cases [of k]
  by (auto simp: check_vertex_indices_def split: if_splits option.splits)

lemma check_triangles_None:
  "check_triangles n vs tris = None \<Longrightarrow> i < n \<Longrightarrow>
     \<not> IsDegenerate (tris ! i) \<and> (\<forall>k<3. unat (mIdx_at (tris ! i) k) < length vs)"
proof (induction n)
  case 0
  then show ?case by simp
next
  case (Suc n)
  from Suc.prems(1) have a: "\<not> IsDegenerate (tris ! n)" "check_vertex_indices vs (tris ! n) = None"
    "check_triangles n vs tris = None"
    by (auto simp: Let_def split: if_splits option.splits)
  show ?case
  proof (cases "i = n")
    case True
    with a(1,2) show ?thesis using check_vertex_indices_None by blast
  next
    case False
    with Suc.prems(2) have "i < n" by simp
    with Suc.IH a(3) show ?thesis by blast
  qed
qed

lemma check_materials_None:
  assumes "check_materials C materials tris = None" "t \<in> set tris"
  shows "unat (mMaterialIndex t) \<le> FLAGS_MATERIAL_MASK C"
proof (cases "materials = []")
  case True
  with assms(1) have "find (\<lambda>t. mMaterialIndex t \<noteq> 0) tris = None"
    by (simp add: check_materials_def split: option.splits)
  with assms(2) have "mMaterialIndex t = 0" by (auto simp: find_None_iff)
  then show ?thesis by simp
next
  case False
  with assms(1) have "length materials \<le> FLAGS_MATERIAL_MASK C"
    "find (\<lambda>t. length materials \<le> unat (mMaterialIndex t)) tris = None"
    by (auto simp: check_materials_def split: option.splits if_splits)
  with assms(2) show ?thesis by (auto simp: find_None_iff)
qed

lemma high_bits_clear:
  fixes w :: u32
  assumes "unat w < 2 ^ n" "n \<le> j"
  shows "\<not> bit w j"
proof
  assume b: "bit w j"
  then have "bit (unat w) j" by (simp add: bit_unsigned_iff)
  then have "2 ^ j \<le> unat w" by (simp add: bit_iff_odd) (metis div_less even_zero not_le)
  moreover have "(2::nat) ^ n \<le> 2 ^ j" using assms(2) by simp
  ultimately show False using assms(1) by simp
qed

lemma ctor_validated:
  assumes "MeshShape_ctor C G B s = Inr shape"
  shows "check_triangles (length (mIndexedTriangles s)) (mTriangleVertices s) (mIndexedTriangles s) = None"
    and "check_materials C (settings_mMaterials s) (mIndexedTriangles s) = None"
    and "\<exists>flagged. FindActiveEdges C G (mTriangleVertices s) (mIndexedTriangles s) = Inr flagged
           \<and> Convert B (mTriangleVertices s) flagged = Inr (mTree shape)"
  using assms
  by (auto simp: MeshShape_ctor_def split: if_splits option.splits sum.splits)

lemma validated_triangles:
  assumes "check_triangles (length tris) vs tris = None"
  shows "\<forall>t \<in> set tris. \<not> IsDegenerate t" and "vertices_in_range vs tris"
  using check_triangles_None [OF assms]
  by (auto simp: vertices_in_range_def in_set_conv_nth)

lemma validated_materials:
  assumes "check_materials C materials tris = None"
    and "FLAGS_MATERIAL_MASK C < 2 ^ FLAGS_ACTIVE_EGDE_SHIFT C"
  shows "\<forall>t \<in> set tris. \<forall>k<3. \<not> bit (mMaterialIndex t) (k + FLAGS_ACTIVE_EGDE_SHIFT C)"
proof (intro ballI allI impI)
  fix t k assume "t \<in> set tris"
  then have "unat (mMaterialIndex t) < 2 ^ FLAGS_ACTIVE_EGDE_SHIFT C"
    using check_materials_None [OF assms(1)] assms(2) by (meson le_less_trans)
  then show "\<not> bit (mMaterialIndex t) (k + FLAGS_ACTIVE_EGDE_SHIFT C)"
    by (rule high_bits_clear) simp
qed

text \<open>
  C2: after a successful construction, the triangles handed to the tree builder are the
  input triangles with their flag words changed as follows. For every triangle and every edge
  position \<open>k\<close> of 0, 1, 2, the bit \<open>FLAGS_ACTIVE_EGDE_SHIFT + k\<close> of the flag word is set exactly
  when the edge at that position is active: an edge contained in exactly one triangle is
  active, an edge contained in exactly two triangles is active iff \<open>IsEdgeActive\<close> holds of the
  two counter-clockwise plane normals and the direction of the edge, an edge contained in
  three or more triangles is active. The edge is the same for all its triangles, so the bit is
  set in all of them or in none. The constants are assumed to lay out the flag word as the
  spec says (the material index below the active edge bits, all within the word), and the
  iteration over the hash map to visit every entry once.
\<close>

theorem MeshShape_active_edges:
  assumes ok: "MeshShape_ctor C G B inSettings = Inr shape"
    and mask: "FLAGS_MATERIAL_MASK C < 2 ^ FLAGS_ACTIVE_EGDE_SHIFT C"
    and sh: "FLAGS_ACTIVE_EGDE_SHIFT C + 2 < 32"
    and perm: "\<forall>m. mset (iteration_order G m) = mset m"
  shows "\<exists>flagged.
      FindActiveEdges C G (mTriangleVertices inSettings) (mIndexedTriangles inSettings) = Inr flagged
      \<and> Convert B (mTriangleVertices inSettings) flagged = Inr (mTree shape)
      \<and> length flagged = length (mIndexedTriangles inSettings)
      \<and> (\<forall>ti<length (mIndexedTriangles inSettings).
            mIdx (flagged ! ti) = mIdx (mIndexedTriangles inSettings ! ti)
            \<and> (\<forall>k<3. bit (mMaterialIndex (flagged ! ti)) (FLAGS_ACTIVE_EGDE_SHIFT C + k)
                 \<longleftrightarrow> edge_is_active G (mTriangleVertices inSettings) (mIndexedTriangles inSettings)
                       (triangle_edge (mIndexedTriangles inSettings ! ti) k)))"
proof -
  let ?vs = "mTriangleVertices inSettings" and ?tris = "mIndexedTriangles inSettings"
  let ?sh = "FLAGS_ACTIVE_EGDE_SHIFT C"
  from ctor_validated [OF ok] obtain flagged where
    ct: "check_triangles (length ?tris) ?vs ?tris = None"
    and cm: "check_materials C (settings_mMaterials inSettings) ?tris = None"
    and fl: "FindActiveEdges C G ?vs ?tris = Inr flagged"
    and cv: "Convert B ?vs flagged = Inr (mTree shape)"
    by blast
  note nondeg = validated_triangles(1) [OF ct] and range = validated_triangles(2) [OF ct]
  note clear = validated_materials [OF cm mask]
  from perm have p: "mset (iteration_order G (build_edge_to_triangle ?tris)) = mset (build_edge_to_triangle ?tris)"
    by blast
  from FindActiveEdges_spec [OF sh nondeg p clear, of ?vs] fl
  have len: "length flagged = length ?tris"
    and props: "\<And>i. i < length ?tris \<Longrightarrow> mIdx (flagged ! i) = mIdx (?tris ! i) \<and>
           (\<forall>j. bit (mMaterialIndex (flagged ! i)) j \<longleftrightarrow>
              bit (mMaterialIndex (?tris ! i)) j \<or>
              (\<exists>k<3. j = k + ?sh \<and>
                 edge_active G ?vs ?tris (triangle_edge (?tris ! i) k,
                   incident_triangles ?tris (triangle_edge (?tris ! i) k)) = Inr True))"
    by simp_all
  have "mIdx (flagged ! ti) = mIdx (?tris ! ti)
            \<and> (\<forall>k<3. bit (mMaterialIndex (flagged ! ti)) (?sh + k)
                 \<longleftrightarrow> edge_is_active G ?vs ?tris (triangle_edge (?tris ! ti) k))"
    if ti: "ti < length ?tris" for ti
  proof (intro conjI allI impI)
    show "mIdx (flagged ! ti) = mIdx (?tris ! ti)" using props [OF ti] by blast
  next
    fix k :: nat assume k: "k < 3"
    from ti have "?tris ! ti \<in> set ?tris" by simp
    with clear k have c: "\<not> bit (mMaterialIndex (?tris ! ti)) (k + ?sh)" by blast
    have "bit (mMaterialIndex (flagged ! ti)) (?sh + k) \<longleftrightarrow>
        (\<exists>k'<3. ?sh + k = k' + ?sh \<and>
                 edge_active G ?vs ?tris (triangle_edge (?tris ! ti) k',
                   incident_triangles ?tris (triangle_edge (?tris ! ti) k')) = Inr True)"
      using props [OF ti] c by (simp add: add.commute)
    also have "\<dots> \<longleftrightarrow> edge_active G ?vs ?tris (triangle_edge (?tris ! ti) k,
                   incident_triangles ?tris (triangle_edge (?tris ! ti) k)) = Inr True"
      using k by auto
    also have "\<dots> \<longleftrightarrow> edge_is_active G ?vs ?tris (triangle_edge (?tris ! ti) k)"
      by (simp add: edge_active_incident [OF range])
    finally show "bit (mMaterialIndex (flagged ! ti)) (?sh + k) \<longleftrightarrow>
        edge_is_active G ?vs ?tris (triangle_edge (?tris ! ti) k)" .
  qed
  with fl cv len show ?thesis by blast
qed

text \<open>
  On a triangle list without degenerate triangles whose flag words have no active edge bit
  set on entry, the assertion at the place where an edge bit is set does not fire: a
  triangle without two equal indices has each edge at one position only, so no bit is set
  twice.
\<close>

lemma FindActiveEdges_bit_not_set_twice:
  assumes nondeg: "\<forall>t \<in> set tris. \<not> IsDegenerate t"
    and clear: "\<forall>t \<in> set tris. \<forall>k<3. \<not> bit (mMaterialIndex t) (k + FLAGS_ACTIVE_EGDE_SHIFT C)"
    and sh: "FLAGS_ACTIVE_EGDE_SHIFT C + 2 < 32"
    and perm: "\<forall>m. mset (iteration_order G m) = mset m"
  shows "FindActiveEdges C G vs tris \<noteq> Inl EdgeBitAlreadySet"
proof -
  from perm have p: "mset (iteration_order G (build_edge_to_triangle tris)) = mset (build_edge_to_triangle tris)"
    by blast
  from FindActiveEdges_spec [OF sh nondeg p clear, of vs] show ?thesis
    by (auto split: sum.splits)
qed

text \<open>
  C9: \<open>FindActiveEdges\<close> is called from the constructor only, after the triangles and the
  materials have been validated: no triangle is degenerate, and every material index is at
  most \<open>FLAGS_MATERIAL_MASK\<close>, so that no flag word has an active edge bit set when
  \<open>FindActiveEdges\<close> starts. Whatever the settings, the constructor does not end in the
  assertion of the place where an edge bit is set; when the validation has passed,
  \<open>FindActiveEdges\<close> does not fail at all. The constants are assumed to lay out the flag word
  as the spec says, and the iteration over the hash map to visit every entry once.
\<close>

theorem MeshShape_ctor_edge_bit_not_set_twice:
  assumes mask: "FLAGS_MATERIAL_MASK C < 2 ^ FLAGS_ACTIVE_EGDE_SHIFT C"
    and sh: "FLAGS_ACTIVE_EGDE_SHIFT C + 2 < 32"
    and perm: "\<forall>m. mset (iteration_order G m) = mset m"
  shows "MeshShape_ctor C G B inSettings \<noteq> Inl (Crash EdgeBitAlreadySet)
     \<and> (check_triangles (length (mIndexedTriangles inSettings))
            (mTriangleVertices inSettings) (mIndexedTriangles inSettings) = None
        \<and> check_materials C (settings_mMaterials inSettings) (mIndexedTriangles inSettings) = None
        \<longrightarrow> (\<exists>flagged. FindActiveEdges C G (mTriangleVertices inSettings)
                          (mIndexedTriangles inSettings) = Inr flagged))"
proof -
  let ?vs = "mTriangleVertices inSettings" and ?tris = "mIndexedTriangles inSettings"
  have run: "\<exists>flagged. FindActiveEdges C G ?vs ?tris = Inr flagged"
    if t: "check_triangles (length ?tris) ?vs ?tris = None"
      and m: "check_materials C (settings_mMaterials inSettings) ?tris = None"
  proof -
    note v = validated_triangles [OF t]
    note clear = validated_materials [OF m mask]
    from perm have p: "mset (iteration_order G (build_edge_to_triangle ?tris))
        = mset (build_edge_to_triangle ?tris)"
      by blast
    from FindActiveEdges_spec [OF sh v(1) p clear, of ?vs] v(2) show ?thesis
      by (cases "FindActiveEdges C G ?vs ?tris") simp_all
  qed
  have "MeshShape_ctor C G B inSettings \<noteq> Inl (Crash EdgeBitAlreadySet)"
  proof
    assume c: "MeshShape_ctor C G B inSettings = Inl (Crash EdgeBitAlreadySet)"
    show False
    proof (cases "check_triangles (length ?tris) ?vs ?tris")
      case (Some e)
      then have "e = Crash EdgeBitAlreadySet"
        using c by (simp add: MeshShape_ctor_def split: if_splits)
      moreover have "check_triangles n ?vs ?tris \<noteq> Some (Crash f)" for n f
        by (induction n)
           (auto simp: Let_def check_vertex_indices_def split: option.splits if_splits)
      ultimately show False using Some by simp
    next
      case None
      show False
      proof (cases "check_materials C (settings_mMaterials inSettings) ?tris")
        case (Some e)
        then have "e = Crash EdgeBitAlreadySet"
          using c None by (simp add: MeshShape_ctor_def split: if_splits)
        then show False
          using Some by (auto simp: check_materials_def split: if_splits option.splits)
      next
        case m: None
        from run [OF None m] obtain flagged where
          "FindActiveEdges C G ?vs ?tris = Inr flagged" by blast
        then show False
          using c None m by (simp add: MeshShape_ctor_def split: if_splits sum.splits)
      qed
    qed
  qed
  then show ?thesis using run by blast
qed

text \<open>
  C3: with \<open>FLAGS_MATERIAL_MASK + 1\<close> materials (which the claim accepts) and an otherwise valid
  input, the constructor fails with the error for too many materials: the guard is
  \<open>mMaterials.size() > FLAGS_MATERIAL_MASK\<close>. The number in its message is
  \<open>FLAGS_ACTIVE_EDGE_MASK + 1\<close>.
\<close>

theorem MeshShape_ctor_mask_plus_one_materials:
  "MeshShape_ctor C G B
     \<lparr>mTriangleVertices = [v0, v1, v2],
      mIndexedTriangles = [\<lparr>mIdx = (0, 1, 2), mMaterialIndex = 0\<rparr>],
      settings_mMaterials = replicate (FLAGS_MATERIAL_MASK C + 1) m\<rparr>
   = Inl (TooManyMaterials (FLAGS_ACTIVE_EDGE_MASK C + 1))"
  by (simp add: MeshShape_ctor_def check_vertex_indices_def IsDegenerate_def mIdx_at_def
      check_materials_def)

subsection \<open>A concrete instance\<close>

text \<open>
  Constants with five material bits below three active edge bits, a geometry over numbers
  in which no shared edge is active, and a codec that keeps the flagged triangles as the tree.
\<close>

definition example_constants :: constants where
  "example_constants =
     \<lparr>FLAGS_MATERIAL_MASK = 31, FLAGS_ACTIVE_EGDE_SHIFT = 5, FLAGS_ACTIVE_EDGE_MASK = 7,
      NumTriangleBits = 3, MaxBits = 32\<rparr>"

definition example_geometry :: "nat geometry" where
  "example_geometry =
     \<lparr>sFromPointsCCW_GetNormal = (\<lambda>a b c. a + b + c), vec_minus = (\<lambda>a b. a - b),
      IsEdgeActive = (\<lambda>n1 n2 d. False), iteration_order = rev\<rparr>"

definition example_codec :: "(nat, IndexedTriangle list, IndexedTriangle list) tree_codec" where
  "example_codec =
     \<lparr>Convert = (\<lambda>vs tris. Inr tris), sTriangleBlockIDBits = (\<lambda>tree. 0),
      sGetTriangleBlockStart = (\<lambda>tree block_id. tree),
      sGetFlags = (\<lambda>block i. if i < length block then Some (ucast (mMaterialIndex (block ! i))) else None)\<rparr>"

lemmas example_defs = example_constants_def example_geometry_def example_codec_def

lemmas FindActiveEdges_defs = FindActiveEdges_def build_edge_to_triangle_def add_triangle_edges_def
  triangle_edge_def mIdx_at_def Edge_def edge_active_def GetIndexInTriangle_def edge_vertices_def Let_def

text \<open>
  The validation matters: a triangle whose flag word has the bit \<open>FLAGS_ACTIVE_EGDE_SHIFT\<close>
  set would trip the assertion in \<open>FindActiveEdges\<close>, and the constructor rejects it before,
  with or without materials.
\<close>

lemma FindActiveEdges_after_validation_only:
  "FindActiveEdges example_constants example_geometry [0, 1, 2]
        [\<lparr>mIdx = (0, 1, 2), mMaterialIndex = 32\<rparr>] = Inl EdgeBitAlreadySet
   \<and> MeshShape_ctor example_constants example_geometry example_codec
        \<lparr>mTriangleVertices = [0, 1, 2],
         mIndexedTriangles = [\<lparr>mIdx = (0, 1, 2), mMaterialIndex = 32\<rparr>],
         settings_mMaterials = ([] :: unit list)\<rparr> = Inl MissingMaterialNonZero
   \<and> MeshShape_ctor example_constants example_geometry example_codec
        \<lparr>mTriangleVertices = [0, 1, 2],
         mIndexedTriangles = [\<lparr>mIdx = (0, 1, 2), mMaterialIndex = 32\<rparr>],
         settings_mMaterials = replicate 31 ()\<rparr> = Inl (MaterialOutOfRange 32 31)"
  by (simp add: example_defs FindActiveEdges_defs MeshShape_ctor_def check_vertex_indices_def
      check_materials_def IsDegenerate_def)

text \<open>Two triangles that share the edge between the vertices 1 and 2.\<close>

lemma FindActiveEdges_two_triangles:
  "FindActiveEdges example_constants example_geometry [0, 1, 2, 3]
     [\<lparr>mIdx = (0, 1, 2), mMaterialIndex = 0\<rparr>, \<lparr>mIdx = (2, 1, 3), mMaterialIndex = 1\<rparr>]
     \<noteq> Inl EdgeBitAlreadySet
   \<and> FindActiveEdges example_constants example_geometry [0, 1, 2, 3]
     [\<lparr>mIdx = (0, 1, 2), mMaterialIndex = 0\<rparr>, \<lparr>mIdx = (2, 1, 3), mMaterialIndex = 1\<rparr>]
     = Inr [\<lparr>mIdx = (0, 1, 2), mMaterialIndex = 160\<rparr>, \<lparr>mIdx = (2, 1, 3), mMaterialIndex = 193\<rparr>]"
proof -
  have "FindActiveEdges example_constants example_geometry [0, 1, 2, 3]
     [\<lparr>mIdx = (0, 1, 2), mMaterialIndex = 0\<rparr>, \<lparr>mIdx = (2, 1, 3), mMaterialIndex = 1\<rparr>]
     \<noteq> Inl EdgeBitAlreadySet"
    by (rule FindActiveEdges_bit_not_set_twice)
      (simp_all add: example_defs IsDegenerate_def bit_1_iff)
  moreover have "FindActiveEdges example_constants example_geometry [0, 1, 2, 3]
     [\<lparr>mIdx = (0, 1, 2), mMaterialIndex = 0\<rparr>, \<lparr>mIdx = (2, 1, 3), mMaterialIndex = 1\<rparr>]
     = Inr [\<lparr>mIdx = (0, 1, 2), mMaterialIndex = 160\<rparr>, \<lparr>mIdx = (2, 1, 3), mMaterialIndex = 193\<rparr>]"
    by (simp add: example_defs FindActiveEdges_defs)
  ultimately show ?thesis by blast
qed

text \<open>
  The same two triangles through the constructor: the shared edge is inactive, the other
  edges are active.
\<close>

theorem MeshShape_active_edges_witness:
  "MeshShape_ctor example_constants example_geometry example_codec
     \<lparr>mTriangleVertices = [0, 1, 2, 3],
      mIndexedTriangles = [\<lparr>mIdx = (0, 1, 2), mMaterialIndex = 0\<rparr>, \<lparr>mIdx = (2, 1, 3), mMaterialIndex = 0\<rparr>],
      settings_mMaterials = ([] :: unit list)\<rparr>
   = Inr \<lparr>mMaterials = [],
          mTree = [\<lparr>mIdx = (0, 1, 2), mMaterialIndex = 160\<rparr>, \<lparr>mIdx = (2, 1, 3), mMaterialIndex = 192\<rparr>]\<rparr>
   \<and> \<not> edge_is_active example_geometry [0, 1, 2, 3]
        [\<lparr>mIdx = (0, 1, 2), mMaterialIndex = 0\<rparr>, \<lparr>mIdx = (2, 1, 3), mMaterialIndex = 0\<rparr>] (Edge 1 2)
   \<and> edge_is_active example_geometry [0, 1, 2, 3]
        [\<lparr>mIdx = (0, 1, 2), mMaterialIndex = 0\<rparr>, \<lparr>mIdx = (2, 1, 3), mMaterialIndex = 0\<rparr>] (Edge 0 1)"
proof -
  let ?s = "\<lparr>mTriangleVertices = [0, 1, 2, 3 :: nat],
      mIndexedTriangles = [\<lparr>mIdx = (0, 1, 2), mMaterialIndex = 0\<rparr>, \<lparr>mIdx = (2, 1, 3), mMaterialIndex = 0\<rparr>],
      settings_mMaterials = ([] :: unit list)\<rparr>"
  let ?shape = "\<lparr>mMaterials = ([] :: unit list),
          mTree = [\<lparr>mIdx = (0, 1, 2), mMaterialIndex = 160\<rparr>, \<lparr>mIdx = (2, 1, 3), mMaterialIndex = 192\<rparr>]\<rparr>"
  have ok: "MeshShape_ctor example_constants example_geometry example_codec ?s = Inr ?shape"
    by (simp add: MeshShape_ctor_def check_vertex_indices_def check_materials_def IsDegenerate_def
        example_defs FindActiveEdges_defs)
  have mask: "FLAGS_MATERIAL_MASK example_constants < 2 ^ FLAGS_ACTIVE_EGDE_SHIFT example_constants"
    and sh: "FLAGS_ACTIVE_EGDE_SHIFT example_constants + 2 < 32"
    and perm: "\<forall>m. mset (iteration_order example_geometry m) = mset m"
    by (simp_all add: example_defs)
  from MeshShape_active_edges [OF ok mask sh perm] obtain flagged where
    fl: "FindActiveEdges example_constants example_geometry (mTriangleVertices ?s) (mIndexedTriangles ?s)
           = Inr flagged"
    and props: "\<forall>ti<length (mIndexedTriangles ?s).
            mIdx (flagged ! ti) = mIdx (mIndexedTriangles ?s ! ti)
            \<and> (\<forall>k<3. bit (mMaterialIndex (flagged ! ti)) (FLAGS_ACTIVE_EGDE_SHIFT example_constants + k)
                 \<longleftrightarrow> edge_is_active example_geometry (mTriangleVertices ?s) (mIndexedTriangles ?s)
                       (triangle_edge (mIndexedTriangles ?s ! ti) k))"
    by blast
  from fl have flagged: "flagged = mTree ?shape"
    by (simp add: example_defs FindActiveEdges_defs)
  from props [rule_format, of 0, THEN conjunct2, rule_format, of 1]
  have "\<not> edge_is_active example_geometry [0, 1, 2, 3]
        [\<lparr>mIdx = (0, 1, 2), mMaterialIndex = 0\<rparr>, \<lparr>mIdx = (2, 1, 3), mMaterialIndex = 0\<rparr>] (Edge 1 2)"
    by (simp add: flagged triangle_edge_def mIdx_at_def example_constants_def)
  moreover from props [rule_format, of 0, THEN conjunct2, rule_format, of 0]
  have "edge_is_active example_geometry [0, 1, 2, 3]
        [\<lparr>mIdx = (0, 1, 2), mMaterialIndex = 0\<rparr>, \<lparr>mIdx = (2, 1, 3), mMaterialIndex = 0\<rparr>] (Edge 0 1)"
    by (simp add: flagged triangle_edge_def mIdx_at_def example_constants_def)
  ultimately show ?thesis using ok by simp
qed

text \<open>
  The constructor on the two triangles, now with two materials: it does not end in the
  assertion, and \<open>FindActiveEdges\<close> returns the flagged triangles.
\<close>

theorem MeshShape_ctor_edge_bit_not_set_twice_witness:
  "MeshShape_ctor example_constants example_geometry example_codec
     \<lparr>mTriangleVertices = [0, 1, 2, 3],
      mIndexedTriangles = [\<lparr>mIdx = (0, 1, 2), mMaterialIndex = 0\<rparr>, \<lparr>mIdx = (2, 1, 3), mMaterialIndex = 1\<rparr>],
      settings_mMaterials = [(), ()]\<rparr>
     \<noteq> Inl (Crash EdgeBitAlreadySet)
   \<and> (\<exists>flagged. FindActiveEdges example_constants example_geometry [0, 1, 2, 3]
        [\<lparr>mIdx = (0, 1, 2), mMaterialIndex = 0\<rparr>, \<lparr>mIdx = (2, 1, 3), mMaterialIndex = 1\<rparr>]
          = Inr flagged)
   \<and> FindActiveEdges example_constants example_geometry [0, 1, 2, 3]
        [\<lparr>mIdx = (0, 1, 2), mMaterialIndex = 0\<rparr>, \<lparr>mIdx = (2, 1, 3), mMaterialIndex = 1\<rparr>]
     = Inr [\<lparr>mIdx = (0, 1, 2), mMaterialIndex = 160\<rparr>, \<lparr>mIdx = (2, 1, 3), mMaterialIndex = 193\<rparr>]"
proof -
  let ?s = "\<lparr>mTriangleVertices = [0, 1, 2, 3 :: nat],
      mIndexedTriangles = [\<lparr>mIdx = (0, 1, 2), mMaterialIndex = 0\<rparr>, \<lparr>mIdx = (2, 1, 3), mMaterialIndex = 1\<rparr>],
      settings_mMaterials = [(), ()]\<rparr>"
  have mask: "FLAGS_MATERIAL_MASK example_constants < 2 ^ FLAGS_ACTIVE_EGDE_SHIFT example_constants"
    and sh: "FLAGS_ACTIVE_EGDE_SHIFT example_constants + 2 < 32"
    and perm: "\<forall>m. mset (iteration_order example_geometry m) = mset m"
    by (simp_all add: example_defs)
  have t: "check_triangles (length (mIndexedTriangles ?s)) (mTriangleVertices ?s) (mIndexedTriangles ?s) = None"
    by (simp add: check_vertex_indices_def IsDegenerate_def mIdx_at_def)
  have m: "check_materials example_constants (settings_mMaterials ?s) (mIndexedTriangles ?s) = None"
    by (simp add: check_materials_def example_constants_def)
  have v: "FindActiveEdges example_constants example_geometry [0, 1, 2, 3]
        [\<lparr>mIdx = (0, 1, 2), mMaterialIndex = 0\<rparr>, \<lparr>mIdx = (2, 1, 3), mMaterialIndex = 1\<rparr>]
     = Inr [\<lparr>mIdx = (0, 1, 2), mMaterialIndex = 160\<rparr>, \<lparr>mIdx = (2, 1, 3), mMaterialIndex = 193\<rparr>]"
    by (simp add: example_defs FindActiveEdges_defs)
  from MeshShape_ctor_edge_bit_not_set_twice [OF mask sh perm, of example_codec ?s] t m v
  show ?thesis by simp
qed

section \<open>Sub-shape IDs\<close>

text \<open>
  Modelled from the spec: \<open>SubShapeID\<close> and \<open>SubShapeIDCreator\<close> (declared in
  \<open>Physics/Collision/Shape/SubShapeID.h\<close>) are not among the sources. The spec: a sub-shape ID
  is a bit field of fixed maximum width \<open>MaxSubShapeBits\<close>; \<open>Push(value, width)\<close> appends to the
  high end; \<open>Pop(width)\<close> returns the low \<open>width\<close> bits and a remainder. The bits are kept as
  a list, the lowest first; a bit that does not fit in the maximum width is lost.
\<close>

type_synonym SubShapeID = "bool list"

definition low_bits :: "nat \<Rightarrow> nat \<Rightarrow> bool list" where
  "low_bits width v = map (bit v) [0..<width]"

fun bits_value :: "bool list \<Rightarrow> nat" where
  "bits_value [] = 0"
| "bits_value (b # bs) = of_bool b + 2 * bits_value bs"

definition PushID :: "constants \<Rightarrow> nat \<Rightarrow> nat \<Rightarrow> SubShapeID \<Rightarrow> SubShapeID" where
  "PushID C inValue inBits this = take (MaxBits C) (this @ low_bits inBits inValue)"

definition PopID :: "nat \<Rightarrow> SubShapeID \<Rightarrow> nat \<times> SubShapeID" where
  "PopID inBits this = (bits_value (take inBits this), drop inBits this)"

definition IsEmpty :: "SubShapeID \<Rightarrow> bool" where
  "IsEmpty this = (this = [])"

text \<open>
  \<open>MeshShape::DecodeSubShapeID\<close>: pop the block id, find the block, pop the triangle index;
  \<open>JPH_ASSERT(remainder.IsEmpty(), "Invalid subshape ID")\<close>.
\<close>

definition DecodeSubShapeID ::
  "constants \<Rightarrow> ('v, 'tree, 'block) tree_codec \<Rightarrow> 'tree \<Rightarrow> SubShapeID \<Rightarrow> failure + 'block \<times> nat" where
  "DecodeSubShapeID C B tree inSubShapeID =
     (let (block_id, triangle_idx_subshape_id) = PopID (sTriangleBlockIDBits B tree) inSubShapeID;
          outTriangleBlock = sGetTriangleBlockStart B tree block_id;
          (outTriangleIndex, remainder) = PopID (NumTriangleBits C) triangle_idx_subshape_id
      in if IsEmpty remainder then Inr (outTriangleBlock, outTriangleIndex) else Inl InvalidSubShapeID)"

text \<open>
  \<open>MeshShape::GetMaterial\<close>; \<open>sDefault\<close> is \<open>PhysicsMaterial::sDefault\<close>. The index
  \<open>flags & FLAGS_MATERIAL_MASK\<close> into \<open>mMaterials\<close> is checked here, where the source reads
  the vector unchecked.
\<close>

definition GetMaterial ::
  "constants \<Rightarrow> ('v, 'tree, 'block) tree_codec \<Rightarrow> 'm \<Rightarrow> ('m, 'tree) MeshShape \<Rightarrow> SubShapeID
     \<Rightarrow> failure + 'm" where
  "GetMaterial C B sDefault this inSubShapeID =
     (if mMaterials this = [] then Inr sDefault
      else
        case DecodeSubShapeID C B (mTree this) inSubShapeID of
          Inl f \<Rightarrow> Inl f
        | Inr (block_start, triangle_idx) \<Rightarrow>
        case sGetFlags B block_start triangle_idx of
          None \<Rightarrow> Inl OutOfBounds
        | Some flags \<Rightarrow>
            if (unat flags AND FLAGS_MATERIAL_MASK C) < length (mMaterials this)
            then Inr (mMaterials this ! (unat flags AND FLAGS_MATERIAL_MASK C))
            else Inl OutOfBounds)"

subsection \<open>Pushing and popping\<close>

lemma length_low_bits: "length (low_bits w v) = w"
  by (simp add: low_bits_def)

lemma low_bits_Suc: "low_bits (Suc w) v = odd v # low_bits w (v div 2)"
proof -
  have "[0..<Suc w] = 0 # map Suc [0..<w]"
    by (simp add: upt_conv_Cons map_Suc_upt del: upt_Suc)
  then show ?thesis
    by (simp add: low_bits_def bit_Suc bit_0 comp_def del: upt_Suc)
qed

lemma bits_value_low_bits: "bits_value (low_bits w v) = v mod 2 ^ w"
proof (induction w arbitrary: v)
  case 0
  then show ?case by (simp add: low_bits_def)
next
  case (Suc w)
  have "v mod (2 * 2 ^ w) = 2 * ((v div 2) mod 2 ^ w) + v mod 2"
    by (simp add: mod_mult2_eq)
  moreover have "of_bool (odd v) = v mod 2"
    by (cases "odd v") (simp_all add: odd_iff_mod_2_eq_one)
  ultimately show ?case
    by (simp add: low_bits_Suc Suc.IH)
qed

lemma PopID_PushID:
  assumes "v < 2 ^ w" "length c + w \<le> MaxBits C"
  shows "PushID C v w c = c @ low_bits w v"
    and "PopID w (low_bits w v @ r) = (v, r)"
  using assms by (simp_all add: PushID_def PopID_def length_low_bits bits_value_low_bits)

lemma DecodeSubShapeID_pushed:
  assumes b: "b < 2 ^ sTriangleBlockIDBits B tree" and t: "t < 2 ^ NumTriangleBits C"
    and fit: "length creator + sTriangleBlockIDBits B tree + NumTriangleBits C \<le> MaxBits C"
  shows "PopID (sTriangleBlockIDBits B tree)
           (drop (length creator)
              (PushID C t (NumTriangleBits C) (PushID C b (sTriangleBlockIDBits B tree) creator)))
           = (b, low_bits (NumTriangleBits C) t)
       \<and> PopID (NumTriangleBits C) (low_bits (NumTriangleBits C) t) = (t, [])
       \<and> DecodeSubShapeID C B tree
           (drop (length creator)
              (PushID C t (NumTriangleBits C) (PushID C b (sTriangleBlockIDBits B tree) creator)))
           = Inr (sGetTriangleBlockStart B tree b, t)"
proof -
  let ?B = "sTriangleBlockIDBits B tree" and ?T = "NumTriangleBits C"
  have p1: "PushID C b ?B creator = creator @ low_bits ?B b"
    using b fit by (intro PopID_PushID(1)) simp_all
  have p2: "PushID C t ?T (creator @ low_bits ?B b) = (creator @ low_bits ?B b) @ low_bits ?T t"
    using t fit by (intro PopID_PushID(1)) (simp_all add: length_low_bits)
  have id: "drop (length creator) (PushID C t ?T (PushID C b ?B creator)) = low_bits ?B b @ low_bits ?T t"
    by (simp add: p1 p2)
  have q1: "PopID ?B (low_bits ?B b @ low_bits ?T t) = (b, low_bits ?T t)"
    using b by (intro PopID_PushID(2) [where c = "[]" and C = "C\<lparr>MaxBits := ?B\<rparr>"]) simp_all
  have q2: "PopID ?T (low_bits ?T t) = (t, [])"
    using t PopID_PushID(2) [where c = "[]" and C = "C\<lparr>MaxBits := ?T\<rparr>" and r = "[]" and w = ?T and v = t]
    by simp
  show ?thesis
    by (simp add: id q1 q2 DecodeSubShapeID_def IsEmpty_def)
qed

text \<open>
  C5: for every block id \<open>b\<close> that fits in the block id bits and every triangle index \<open>t\<close>
  that fits in \<open>NumTriangleBits\<close>, pushing \<open>b\<close> and then \<open>t\<close> onto the ID of a creator (within
  the maximum width) gives an ID from which, once the creator's own bits are popped, popping
  the block id bits yields \<open>b\<close>, popping \<open>NumTriangleBits\<close> then yields \<open>t\<close>, and the remainder
  is empty; \<open>DecodeSubShapeID\<close> does these two pops and returns the block of \<open>b\<close> and \<open>t\<close>.
\<close>

theorem SubShapeID_roundtrip:
  assumes "b < 2 ^ sTriangleBlockIDBits B tree" and "t < 2 ^ NumTriangleBits C"
    and "length creator + sTriangleBlockIDBits B tree + NumTriangleBits C \<le> MaxBits C"
  shows "PopID (sTriangleBlockIDBits B tree)
           (drop (length creator)
              (PushID C t (NumTriangleBits C) (PushID C b (sTriangleBlockIDBits B tree) creator)))
           = (b, low_bits (NumTriangleBits C) t)
       \<and> PopID (NumTriangleBits C) (low_bits (NumTriangleBits C) t) = (t, [])
       \<and> IsEmpty (snd (PopID (NumTriangleBits C) (low_bits (NumTriangleBits C) t)))
       \<and> DecodeSubShapeID C B tree
           (drop (length creator)
              (PushID C t (NumTriangleBits C) (PushID C b (sTriangleBlockIDBits B tree) creator)))
           = Inr (sGetTriangleBlockStart B tree b, t)"
  using DecodeSubShapeID_pushed [OF assms] by (simp add: IsEmpty_def)

theorem SubShapeID_roundtrip_witness:
  "DecodeSubShapeID example_constants (example_codec\<lparr>sTriangleBlockIDBits := \<lambda>tree. 4\<rparr>) []
     (drop (length [True, False])
        (PushID example_constants 5 3 (PushID example_constants 9 4 [True, False])))
     = Inr ([], 5)
   \<and> PushID example_constants 5 3 (PushID example_constants 9 4 [True, False])
     = [True, False, True, False, False, True, True, False, True]"
proof -
  have "DecodeSubShapeID example_constants (example_codec\<lparr>sTriangleBlockIDBits := \<lambda>tree. 4\<rparr>) []
     (drop (length [True, False])
        (PushID example_constants 5 3 (PushID example_constants 9 4 [True, False])))
     = Inr ([], 5)"
    using SubShapeID_roundtrip [of 9 "example_codec\<lparr>sTriangleBlockIDBits := \<lambda>tree. 4\<rparr>" "[]" 5
        example_constants "[True, False]"]
    by (simp add: example_defs)
  moreover have "PushID example_constants 5 3 (PushID example_constants 9 4 [True, False])
     = [True, False, True, False, False, True, True, False, True]"
    by (simp add: PushID_def low_bits_def example_constants_def upt_rec bit_0 bit_Suc)
  ultimately show ?thesis by blast
qed

text \<open>
  C10: with an empty material table \<open>GetMaterial\<close> returns the default material for every
  sub-shape ID and every tree, whatever decoding the ID would give (it is not decoded). With
  a non-empty table the ID is decoded: a failure of the decoding is the result, and otherwise
  the result is the table entry at \<open>flags & FLAGS_MATERIAL_MASK\<close>, for the flags of the decoded
  triangle.
\<close>

theorem GetMaterial_default_or_table:
  "(mMaterials this = [] \<longrightarrow> GetMaterial C B sDefault this inSubShapeID = Inr sDefault)
   \<and> (mMaterials this \<noteq> [] \<longrightarrow> DecodeSubShapeID C B (mTree this) inSubShapeID = Inl f \<longrightarrow>
        GetMaterial C B sDefault this inSubShapeID = Inl f)
   \<and> (mMaterials this \<noteq> [] \<longrightarrow>
        DecodeSubShapeID C B (mTree this) inSubShapeID = Inr (block_start, triangle_idx) \<longrightarrow>
        sGetFlags B block_start triangle_idx = Some flags \<longrightarrow>
        (unat flags AND FLAGS_MATERIAL_MASK C) < length (mMaterials this) \<longrightarrow>
        GetMaterial C B sDefault this inSubShapeID
          = Inr (mMaterials this ! (unat flags AND FLAGS_MATERIAL_MASK C)))"
  by (simp add: GetMaterial_def)

theorem GetMaterial_default_or_table_witness:
  "GetMaterial example_constants example_codec (0 :: nat)
     \<lparr>mMaterials = [], mTree = [\<lparr>mIdx = (0, 1, 2), mMaterialIndex = 160\<rparr>]\<rparr> [True, True, True, True] = Inr 0
   \<and> GetMaterial example_constants example_codec (0 :: nat)
     \<lparr>mMaterials = [10, 11], mTree = [\<lparr>mIdx = (0, 1, 2), mMaterialIndex = 160\<rparr>, \<lparr>mIdx = (2, 1, 3), mMaterialIndex = 193\<rparr>]\<rparr>
     [True, True, True, True] = Inl InvalidSubShapeID
   \<and> GetMaterial example_constants example_codec (0 :: nat)
     \<lparr>mMaterials = [10, 11], mTree = [\<lparr>mIdx = (0, 1, 2), mMaterialIndex = 160\<rparr>, \<lparr>mIdx = (2, 1, 3), mMaterialIndex = 193\<rparr>]\<rparr>
     (PushID example_constants 1 3 (PushID example_constants 0 0 [])) = Inr 11"
proof -
  let ?empty = "\<lparr>mMaterials = ([] :: nat list), mTree = [\<lparr>mIdx = (0, 1, 2), mMaterialIndex = 160\<rparr>]\<rparr>"
  let ?shape = "\<lparr>mMaterials = [10, 11 :: nat],
      mTree = [\<lparr>mIdx = (0, 1, 2), mMaterialIndex = 160\<rparr>, \<lparr>mIdx = (2, 1, 3), mMaterialIndex = 193\<rparr>]\<rparr>"
  let ?id = "PushID example_constants 1 3 (PushID example_constants 0 0 [])"
  have id: "?id = [True, False, False]"
    by (simp add: PushID_def low_bits_def example_constants_def upt_rec bit_0 bit_Suc)
  have d1: "DecodeSubShapeID example_constants example_codec (mTree ?shape) [True, True, True, True]
              = Inl InvalidSubShapeID"
    by (simp add: DecodeSubShapeID_def PopID_def IsEmpty_def example_defs)
  have d2: "DecodeSubShapeID example_constants example_codec (mTree ?shape) ?id = Inr (mTree ?shape, 1)"
    unfolding id by (simp add: DecodeSubShapeID_def PopID_def IsEmpty_def example_defs)
  have fl: "sGetFlags example_codec (mTree ?shape) 1 = Some 193"
    by (simp add: example_defs)
  have "GetMaterial example_constants example_codec 0 ?empty [True, True, True, True] = Inr 0"
    using GetMaterial_default_or_table [where this = ?empty and C = example_constants
        and B = example_codec and sDefault = 0 and inSubShapeID = "[True, True, True, True]"]
    by simp
  moreover have "GetMaterial example_constants example_codec 0 ?shape [True, True, True, True]
       = Inl InvalidSubShapeID"
    using GetMaterial_default_or_table [where this = ?shape and C = example_constants
        and B = example_codec and sDefault = 0 and inSubShapeID = "[True, True, True, True]"
        and f = InvalidSubShapeID] d1
    by simp
  moreover have "GetMaterial example_constants example_codec 0 ?shape ?id = Inr 11"
    using GetMaterial_default_or_table [where this = ?shape and C = example_constants
        and B = example_codec and sDefault = 0 and inSubShapeID = ?id
        and block_start = "mTree ?shape" and triangle_idx = 1 and flags = 193] d2 fl
    by (simp add: example_constants_def)
  ultimately show ?thesis by blast
qed


section \<open>The tree and its walker\<close>

text \<open>
  Modelled from the spec: the encoded tree, its node and triangle codecs
  (\<open>NodeCodecQuadTreeHalfFloat\<close>, \<open>TriangleCodecIndexed8BitPackSOA4Flags\<close>) and the walker
  \<open>NodeCodec::DecodingContext::WalkTree\<close> are not among the sources. The spec: a node is
  4-ary, it holds up to four child bounding boxes and either child offsets (inner) or a
  pointer to a triangle leaf block (leaf); a leaf block has a block id and holds up to
  \<open>MaxTrianglesPerLeaf\<close> triangles, each with its flag byte. The tree is kept here as the
  decoded structure: a leaf with its block id and its triangles (three vertices and the flag
  byte), an inner node with its children and their bounds. The visitors of \<open>MeshShape.cpp\<close>
  restate the bound on a leaf with \<open>JPH_ASSERT(inNumTriangles <= MaxTrianglesPerLeaf)\<close> before
  they unpack its vertices in a local array; that is a property of the codec, not of the
  arguments of a query, and it is a hypothesis on the tree where a theorem depends on it.
\<close>

type_synonym 'v triangle = "('v \<times> 'v \<times> 'v) \<times> u8"

datatype ('box, 'v) node =
    Leaf nat "'v triangle list"
  | Inner "('box \<times> ('box, 'v) node) list"


text \<open>
  The visitor contract of the spec: \<open>ShouldAbort\<close>, \<open>ShouldVisitNode(stackTop)\<close>,
  \<open>VisitNodes(bounds of the four children, properties, stackTop)\<close>, which reorders the lanes of
  \<open>properties\<close> and returns the number of children to push, and \<open>VisitTriangles\<close>, called for
  each leaf. \<open>VisitNodes\<close> returns here the lanes to push, in the order in which they are
  stored on the stack (the last one ends on top).
\<close>

record ('s, 'box, 'v) visitor =
  ShouldAbort :: "'s \<Rightarrow> bool"
  ShouldVisitNode :: "'s \<Rightarrow> nat \<Rightarrow> bool"
  VisitNodes :: "'s \<Rightarrow> 'box list \<Rightarrow> nat \<Rightarrow> 's \<times> nat list"
  VisitTriangles :: "'s \<Rightarrow> 'v triangle list \<Rightarrow> nat \<Rightarrow> 's"

text \<open>
  Modelled from the spec: the walker is depth-first with an explicit stack; \<open>ShouldAbort\<close> is
  tested before each node pop and ends the traversal; \<open>ShouldVisitNode\<close> lets the visitor
  skip a node on the stack. The stack is a list with the top first, so the index of the top
  (\<open>stackTop\<close>) is the length of the rest. One round visits the node on top: an inner node
  is replaced by the children that \<open>VisitNodes\<close> selects, a leaf goes to \<open>VisitTriangles\<close>.
  Then, unless the visitor aborts, the walker pops down to the next node that the visitor
  wants to see. A walk aborted at a leaf keeps that leaf on top of the stack, which is what
  lets \<open>GetTrianglesNext\<close> resume there. A lane is pushed once, and only if the node has a
  child in it; the stacks are not bounded by \<open>StackSize\<close>.
\<close>

fun next_node :: "('s, 'box, 'v) visitor \<Rightarrow> 's \<Rightarrow> ('box, 'v) node list \<Rightarrow> ('box, 'v) node list" where
  "next_node V s [] = []"
| "next_node V s (n # rest) =
     (if ShouldVisitNode V s (length rest) then n # rest else next_node V s rest)"

definition lanes :: "nat \<Rightarrow> nat list \<Rightarrow> nat list" where
  "lanes n sel = remdups (filter (\<lambda>i. i < n) sel)"

definition push_children ::
  "('box \<times> ('box, 'v) node) list \<Rightarrow> nat list \<Rightarrow> ('box, 'v) node list \<Rightarrow> ('box, 'v) node list" where
  "push_children children sel rest =
     rev (map (\<lambda>i. snd (children ! i)) (lanes (length children) sel)) @ rest"

definition stack_size :: "('box, 'v) node list \<Rightarrow> nat" where
  "stack_size stack = sum_list (map size stack)"

lemma stack_size_next_node: "stack_size (next_node V s stack) \<le> stack_size stack"
  by (induction stack) (simp_all add: stack_size_def)

lemma sum_list_selection:
  fixes f :: "'a \<Rightarrow> nat"
  assumes "distinct sel" "\<forall>i \<in> set sel. i < length xs"
  shows "sum_list (map (\<lambda>i. f (xs ! i)) sel) \<le> sum_list (map f xs)"
proof -
  have "sum_list (map (\<lambda>i. f (xs ! i)) sel) = sum (\<lambda>i. f (xs ! i)) (set sel)"
    using assms(1) by (simp add: sum_list_distinct_conv_sum_set)
  also have "\<dots> \<le> sum (\<lambda>i. f (xs ! i)) {0..<length xs}"
    using assms(2) by (intro sum_mono2) auto
  also have "\<dots> = sum_list (map f xs)"
    by (simp add: sum_list_sum_nth)
  finally show ?thesis .
qed

lemma stack_size_push_children:
  "stack_size (push_children children sel rest) < stack_size (Inner children # rest)"
proof -
  have d: "distinct (lanes (length children) sel)" "\<forall>i \<in> set (lanes (length children) sel). i < length children"
    by (simp_all add: lanes_def)
  have "sum_list (map (\<lambda>i. size (snd (children ! i))) (lanes (length children) sel))
          \<le> sum_list (map (\<lambda>c. size (snd c)) children)"
    using sum_list_selection [OF d, of "\<lambda>c. size (snd c)"] by simp
  also have "\<dots> \<le> size_list (size_prod (\<lambda>_. 0) size) children"
    by (induction children) auto
  finally show ?thesis
    by (simp add: stack_size_def push_children_def rev_map [symmetric] comp_def sum_list_rev)
qed

function WalkTree ::
  "('s, 'box, 'v) visitor \<Rightarrow> ('box, 'v) node list \<Rightarrow> 's \<Rightarrow> ('box, 'v) node list \<times> 's" where
  "WalkTree V [] s = ([], s)"
| "WalkTree V (Leaf block_id triangles # rest) s =
     (let s' = VisitTriangles V s triangles block_id in
      if ShouldAbort V s' then (Leaf block_id triangles # rest, s')
      else WalkTree V (next_node V s' rest) s')"
| "WalkTree V (Inner children # rest) s =
     (let visited = VisitNodes V s (map fst children) (length rest);
          pushed = push_children children (snd visited) rest in
      if ShouldAbort V (fst visited) then (pushed, fst visited)
      else WalkTree V (next_node V (fst visited) pushed) (fst visited))"
  by pat_completeness auto
termination
proof (relation "measure (\<lambda>(V, stack, s). stack_size stack)", goal_cases)
  case 1
  then show ?case by simp
next
  case (2 V block_id triangles rest s s')
  have "stack_size (next_node V s' rest) \<le> stack_size rest" by (rule stack_size_next_node)
  then show ?case by (simp add: stack_size_def)
next
  case (3 V children rest s visited pushed)
  have "stack_size (next_node V (fst visited) pushed) \<le> stack_size pushed"
    by (rule stack_size_next_node)
  also have "\<dots> < stack_size (Inner children # rest)"
    unfolding 3(2) by (rule stack_size_push_children)
  finally show ?case by simp
qed

section \<open>The ray cast with a collector\<close>

text \<open>
  The vector and ray primitives (\<open>RayAABox4\<close>, \<open>RayInvDirection\<close>, \<open>RayTriangle\<close>, the
  operations of \<open>Vec3\<close>) and the collector class are external: they are parameters.
  Fractions and distances are taken in a linearly ordered type with a zero, that is,
  floating point numbers without NaN.
\<close>

datatype EBackFaceMode = IgnoreBackFaces | CollideWithBackFaces

record ('f, 'v, 'box) ray_geometry =
  RayAABox :: "'v \<Rightarrow> 'v \<Rightarrow> 'box \<Rightarrow> 'f"
  RayInvDirection :: "'v \<Rightarrow> 'v"
  RayTriangle :: "'v \<Rightarrow> 'v \<Rightarrow> 'v \<Rightarrow> 'v \<Rightarrow> 'v \<Rightarrow> 'f"
  Minus :: "'v \<Rightarrow> 'v \<Rightarrow> 'v"
  Cross :: "'v \<Rightarrow> 'v \<Rightarrow> 'v"
  Dot :: "'v \<Rightarrow> 'v \<Rightarrow> 'f"

record 'v RayCast =
  mOrigin :: 'v
  mDirection :: 'v

record ('f, 'bid) RayCastResult =
  mBodyID :: 'bid
  mFraction :: 'f
  mSubShapeID2 :: SubShapeID

record ('c, 'f, 'bid) collector_class =
  AddHit :: "'c \<Rightarrow> ('f, 'bid) RayCastResult \<Rightarrow> 'c"
  GetEarlyOutFraction :: "'c \<Rightarrow> 'f"
  ShouldEarlyOut :: "'c \<Rightarrow> bool"
  sGetBodyID :: "'c \<Rightarrow> 'bid"

text \<open>
  \<open>Visitor::VisitNodes\<close> of both ray casts (the two differ in the fraction they compare with):
  the distance of each child, the lanes sorted so that the highest distance is first, the
  number of lanes closer than \<open>fraction\<close>, the shift that keeps that many lanes from the end,
  and the four distances stored at \<open>mDistanceStack[inStackTop]\<close>. Modelled from the spec: the
  lane operations \<open>sSort4Reverse\<close> and \<open>ShiftComponents4Minus\<close> of \<open>Vec4\<close> and \<open>UVec4\<close> are not
  among the sources (the spec: sort the lanes descending by distance, discard the children
  that are not closer).
\<close>

definition RayVisitNodes ::
  "('f :: {linorder, zero}, 'v, 'box) ray_geometry \<Rightarrow> 'v RayCast \<Rightarrow> 'f \<Rightarrow> (nat \<Rightarrow> 'f) \<Rightarrow> 'box list \<Rightarrow> nat
     \<Rightarrow> (nat \<Rightarrow> 'f) \<times> nat list" where
  "RayVisitNodes G inRay fraction distance_stack bounds inStackTop =
     (let distance = map (RayAABox G (mOrigin inRay) (RayInvDirection G (mDirection inRay))) bounds;
          sorted = rev (sort_key fst (zip distance [0..<length bounds]));
          num_results = length (filter (\<lambda>d. d < fraction) distance);
          shifted = drop (length sorted - num_results) sorted
      in (\<lambda>i. if inStackTop \<le> i \<and> i < inStackTop + 4
               then (if i - inStackTop < num_results then fst (shifted ! (i - inStackTop)) else 0)
               else distance_stack i,
          map snd shifted))"

record ('c, 'f) CastRayVisitor =
  mCollector :: 'c
  mDistanceStack :: "nat \<Rightarrow> 'f"

record ('f, 'v, 'box) ray_query =
  mRay :: "'v RayCast"
  mBackFaceMode :: EBackFaceMode
  mTriangleBlockIDBits :: nat
  mSubShapeIDCreator :: SubShapeID

text \<open>
  The loop \<open>for (int triangle_idx = 0; triangle_idx < inNumTriangles; ++triangle_idx)\<close> of
  \<open>Visitor::VisitTriangles\<close>, on the vertices that \<open>Unpack\<close> has decoded.
\<close>

fun collect_triangles ::
  "constants \<Rightarrow> ('f :: {linorder, zero}, 'v, 'box) ray_geometry \<Rightarrow> ('c, 'f, 'bid) collector_class
     \<Rightarrow> ('f, 'v, 'box) ray_query \<Rightarrow> SubShapeID \<Rightarrow> nat \<Rightarrow> 'v triangle list \<Rightarrow> 'c \<Rightarrow> 'c" where
  "collect_triangles C G K Q block_sub_shape_id triangle_idx [] c = c"
| "collect_triangles C G K Q block_sub_shape_id triangle_idx (((v0, v1, v2), flags) # rest) c =
     (if mBackFaceMode Q = IgnoreBackFaces
         \<and> Dot G (Cross G (Minus G v2 v0) (Minus G v1 v0)) (mDirection (mRay Q)) < 0
      then collect_triangles C G K Q block_sub_shape_id (triangle_idx + 1) rest c
      else
        let fraction = RayTriangle G (mOrigin (mRay Q)) (mDirection (mRay Q)) v0 v1 v2
        in if fraction < GetEarlyOutFraction K c
           then collect_triangles C G K Q block_sub_shape_id (triangle_idx + 1) rest
                  (AddHit K c \<lparr>mBodyID = sGetBodyID K c, mFraction = fraction,
                     mSubShapeID2 = PushID C triangle_idx (NumTriangleBits C) block_sub_shape_id\<rparr>)
           else collect_triangles C G K Q block_sub_shape_id (triangle_idx + 1) rest c)"

definition CastRayVisitor ::
  "constants \<Rightarrow> ('f :: {linorder, zero}, 'v, 'box) ray_geometry \<Rightarrow> ('c, 'f, 'bid) collector_class
     \<Rightarrow> ('f, 'v, 'box) ray_query \<Rightarrow> (('c, 'f) CastRayVisitor, 'box, 'v) visitor" where
  "CastRayVisitor C G K Q =
     \<lparr>ShouldAbort = (\<lambda>s. ShouldEarlyOut K (mCollector s)),
      ShouldVisitNode = (\<lambda>s inStackTop. mDistanceStack s inStackTop < GetEarlyOutFraction K (mCollector s)),
      VisitNodes = (\<lambda>s bounds inStackTop.
        let visited = RayVisitNodes G (mRay Q) (GetEarlyOutFraction K (mCollector s))
                        (mDistanceStack s) bounds inStackTop
        in (s\<lparr>mDistanceStack := fst visited\<rparr>, snd visited)),
      VisitTriangles = (\<lambda>s triangles inTriangleBlockID.
        s\<lparr>mCollector :=
           collect_triangles C G K Q
             (PushID C inTriangleBlockID (mTriangleBlockIDBits Q) (mSubShapeIDCreator Q))
             0 triangles (mCollector s)\<rparr>)\<rparr>"

definition CastRay_collector ::
  "constants \<Rightarrow> ('f :: {linorder, zero}, 'v, 'box) ray_geometry \<Rightarrow> ('c, 'f, 'bid) collector_class
     \<Rightarrow> ('box, 'v) node \<Rightarrow> nat \<Rightarrow> 'v RayCast \<Rightarrow> EBackFaceMode \<Rightarrow> SubShapeID \<Rightarrow> 'c \<Rightarrow> 'c" where
  "CastRay_collector C G K root block_id_bits inRay inBackFaceMode inSubShapeIDCreator ioCollector =
     mCollector (snd (WalkTree
       (CastRayVisitor C G K
          \<lparr>mRay = inRay, mBackFaceMode = inBackFaceMode, mTriangleBlockIDBits = block_id_bits,
           mSubShapeIDCreator = inSubShapeIDCreator\<rparr>)
       [root] \<lparr>mCollector = ioCollector, mDistanceStack = (\<lambda>i. 0)\<rparr>))"


subsection \<open>The leaf visit in the words of the spec\<close>

definition back_facing :: "('f :: {linorder, zero}, 'v, 'box) ray_geometry \<Rightarrow> 'v RayCast \<Rightarrow> 'v triangle \<Rightarrow> bool" where
  "back_facing G inRay tri =
     (case fst tri of (v0, v1, v2) \<Rightarrow>
        Dot G (Cross G (Minus G v2 v0) (Minus G v1 v0)) (mDirection inRay) < 0)"

definition skipped ::
  "('f :: {linorder, zero}, 'v, 'box) ray_geometry \<Rightarrow> 'v RayCast \<Rightarrow> EBackFaceMode \<Rightarrow> 'v triangle \<Rightarrow> bool" where
  "skipped G inRay mode tri = (mode = IgnoreBackFaces \<and> back_facing G inRay tri)"

definition triangle_fraction :: "('f, 'v, 'box) ray_geometry \<Rightarrow> 'v RayCast \<Rightarrow> 'v triangle \<Rightarrow> 'f" where
  "triangle_fraction G inRay tri =
     (case fst tri of (v0, v1, v2) \<Rightarrow> RayTriangle G (mOrigin inRay) (mDirection inRay) v0 v1 v2)"

definition triangle_id :: "constants \<Rightarrow> ('f, 'v, 'box) ray_query \<Rightarrow> nat \<Rightarrow> nat \<Rightarrow> SubShapeID" where
  "triangle_id C Q block_id triangle_idx =
     PushID C triangle_idx (NumTriangleBits C)
       (PushID C block_id (mTriangleBlockIDBits Q) (mSubShapeIDCreator Q))"

definition report_triangle ::
  "constants \<Rightarrow> ('f :: {linorder, zero}, 'v, 'box) ray_geometry \<Rightarrow> ('c, 'f, 'bid) collector_class
     \<Rightarrow> ('f, 'v, 'box) ray_query \<Rightarrow> nat \<Rightarrow> nat \<times> 'v triangle \<Rightarrow> 'c \<Rightarrow> 'c" where
  "report_triangle C G K Q block_id it c =
     (if \<not> skipped G (mRay Q) (mBackFaceMode Q) (snd it)
         \<and> triangle_fraction G (mRay Q) (snd it) < GetEarlyOutFraction K c
      then AddHit K c \<lparr>mBodyID = sGetBodyID K c, mFraction = triangle_fraction G (mRay Q) (snd it),
             mSubShapeID2 = triangle_id C Q block_id (fst it)\<rparr>
      else c)"

definition report_leaf ::
  "constants \<Rightarrow> ('f :: {linorder, zero}, 'v, 'box) ray_geometry \<Rightarrow> ('c, 'f, 'bid) collector_class
     \<Rightarrow> ('f, 'v, 'box) ray_query \<Rightarrow> nat \<Rightarrow> 'v triangle list \<Rightarrow> 'c \<Rightarrow> 'c" where
  "report_leaf C G K Q block_id triangles c =
     fold (report_triangle C G K Q block_id) (enumerate 0 triangles) c"

lemma collect_triangles_fold:
  "collect_triangles C G K Q (PushID C block_id (mTriangleBlockIDBits Q) (mSubShapeIDCreator Q)) n triangles c
     = fold (report_triangle C G K Q block_id) (enumerate n triangles) c"
proof (induction triangles arbitrary: n c)
  case Nil
  then show ?case by simp
next
  case (Cons tri triangles)
  obtain v0 v1 v2 flags where tri: "tri = ((v0, v1, v2), flags)"
    by (metis prod.collapse)
  show ?case
    by (simp add: tri Cons.IH report_triangle_def skipped_def back_facing_def
        triangle_fraction_def triangle_id_def Let_def)
qed

lemma VisitTriangles_report_leaf:
  "VisitTriangles (CastRayVisitor C G K Q) s triangles block_id
     = s\<lparr>mCollector := report_leaf C G K Q block_id triangles (mCollector s)\<rparr>"
  by (simp add: CastRayVisitor_def report_leaf_def collect_triangles_fold)

text \<open>
  The leaf visit of the ray cast with a collector goes through the triangles of the leaf
  in their order; with \<open>IgnoreBackFaces\<close> it skips a triangle exactly when
  \<open>((v2 - v0) \<times> (v1 - v0)) \<cdot> direction\<close> is negative, with \<open>CollideWithBackFaces\<close> it skips none;
  it reports every other triangle whose fraction is below the early out fraction that the
  collector has at that moment, with \<open>AddHit\<close>. The visitor aborts when the collector says
  \<open>ShouldEarlyOut\<close>, and the walk ends there: after a leaf with that leaf's hits and the leaf
  still on the stack, after an inner node with no further hit.
\<close>

lemma CastRayVisitor_visit_and_abort:
  "VisitTriangles (CastRayVisitor C G K Q) s triangles block_id
     = s\<lparr>mCollector := report_leaf C G K Q block_id triangles (mCollector s)\<rparr>
   \<and> (skipped G (mRay Q) IgnoreBackFaces tri \<longleftrightarrow> back_facing G (mRay Q) tri)
   \<and> \<not> skipped G (mRay Q) CollideWithBackFaces tri
   \<and> (ShouldAbort (CastRayVisitor C G K Q) s \<longleftrightarrow> ShouldEarlyOut K (mCollector s))
   \<and> (ShouldEarlyOut K (report_leaf C G K Q block_id triangles (mCollector s)) \<longrightarrow>
        WalkTree (CastRayVisitor C G K Q) (Leaf block_id triangles # rest) s
          = (Leaf block_id triangles # rest,
             s\<lparr>mCollector := report_leaf C G K Q block_id triangles (mCollector s)\<rparr>))
   \<and> (ShouldEarlyOut K (mCollector s) \<longrightarrow>
        snd (WalkTree (CastRayVisitor C G K Q) (Inner children # rest) s)
          = fst (VisitNodes (CastRayVisitor C G K Q) s (map fst children) (length rest))
        \<and> mCollector (snd (WalkTree (CastRayVisitor C G K Q) (Inner children # rest) s))
          = mCollector s)"
proof -
  have a: "ShouldAbort (CastRayVisitor C G K Q) s' \<longleftrightarrow> ShouldEarlyOut K (mCollector s')" for s'
    by (simp add: CastRayVisitor_def)
  have n: "mCollector (fst (VisitNodes (CastRayVisitor C G K Q) s bounds top)) = mCollector s" for bounds top
    by (simp add: CastRayVisitor_def Let_def)
  show ?thesis
    by (simp add: VisitTriangles_report_leaf a n skipped_def Let_def)
qed

subsection \<open>Two visitors that differ in their collector only\<close>

lemma next_node_related:
  assumes "\<And>n. ShouldVisitNode V1 a n = ShouldVisitNode V2 b n"
  shows "next_node V1 a stack = next_node V2 b stack"
  by (induction stack) (simp_all add: assms)

lemma WalkTree_related:
  assumes "R s1 s2"
    and "\<And>a b. R a b \<Longrightarrow> ShouldAbort V1 a = ShouldAbort V2 b"
    and "\<And>a b n. R a b \<Longrightarrow> ShouldVisitNode V1 a n = ShouldVisitNode V2 b n"
    and "\<And>a b bs n. R a b \<Longrightarrow> snd (VisitNodes V1 a bs n) = snd (VisitNodes V2 b bs n)
                  \<and> R (fst (VisitNodes V1 a bs n)) (fst (VisitNodes V2 b bs n))"
    and "\<And>a b ts n. R a b \<Longrightarrow> R (VisitTriangles V1 a ts n) (VisitTriangles V2 b ts n)"
  shows "fst (WalkTree V1 stack s1) = fst (WalkTree V2 stack s2)
     \<and> R (snd (WalkTree V1 stack s1)) (snd (WalkTree V2 stack s2))"
  using assms
proof (induction V1 stack s1 arbitrary: s2 rule: WalkTree.induct)
  case (1 V s)
  then show ?case by simp
next
  case (2 V block_id triangles rest s)
  note abort = "2.prems"(2) and visit = "2.prems"(3) and nodes = "2.prems"(4) and tris = "2.prems"(5)
  let ?a = "VisitTriangles V s triangles block_id" and ?b = "VisitTriangles V2 s2 triangles block_id"
  have r: "R ?a ?b" using "2.prems"(1) tris by blast
  show ?case
  proof (cases "ShouldAbort V ?a")
    case True
    then have "ShouldAbort V2 ?b" using abort [OF r] by simp
    with True r show ?thesis by (simp add: Let_def)
  next
    case False
    then have f2: "\<not> ShouldAbort V2 ?b" using abort [OF r] by simp
    have nn: "next_node V ?a rest = next_node V2 ?b rest"
      using visit [OF r] by (intro next_node_related) simp
    from "2.IH" [OF refl False r abort visit nodes tris] False f2 nn show ?thesis
      by (simp add: Let_def)
  qed
next
  case (3 V children rest s)
  note abort = "3.prems"(2) and visit = "3.prems"(3) and nodes = "3.prems"(4) and tris = "3.prems"(5)
  let ?v1 = "VisitNodes V s (map fst children) (length rest)"
  let ?v2 = "VisitNodes V2 s2 (map fst children) (length rest)"
  have sel: "snd ?v1 = snd ?v2" and r: "R (fst ?v1) (fst ?v2)"
    using nodes [OF "3.prems"(1)] by simp_all
  show ?case
  proof (cases "ShouldAbort V (fst ?v1)")
    case True
    then have "ShouldAbort V2 (fst ?v2)" using abort [OF r] by simp
    with True r sel show ?thesis by (simp add: Let_def)
  next
    case False
    then have f2: "\<not> ShouldAbort V2 (fst ?v2)" using abort [OF r] by simp
    have nn: "next_node V (fst ?v1) (push_children children (snd ?v1) rest)
                = next_node V2 (fst ?v2) (push_children children (snd ?v2) rest)"
      unfolding sel using visit [OF r] by (intro next_node_related) simp
    from "3.IH" [OF refl refl False r abort visit nodes tris] False f2 nn sel show ?thesis
      by (simp add: Let_def)
  qed
qed

section \<open>MeshShape::CollidePoint\<close>

text \<open>
  The local class \<open>HitCountCollector\<close>: \<open>AddHit\<close> stores the sub-shape ID of the hit and counts
  it. It does not touch the state of its base class \<open>CastRayCollector\<close> (not among the
  sources), so the early out fraction and \<open>ShouldEarlyOut\<close> stay what they are for a fresh
  collector: the parameters \<open>early_out_fraction\<close> and \<open>should_early_out\<close>. The counter
  \<open>mHitCount\<close> is an \<open>int\<close>, kept as its 32 bits.
\<close>

record HitCountCollector =
  mHitCount :: u32
  mSubShapeID :: SubShapeID

definition HitCountCollector_class ::
  "'f \<Rightarrow> bool \<Rightarrow> 'bid \<Rightarrow> (HitCountCollector, 'f, 'bid) collector_class" where
  "HitCountCollector_class early_out_fraction should_early_out body =
     \<lparr>AddHit = (\<lambda>c inResult. c\<lparr>mSubShapeID := mSubShapeID2 inResult, mHitCount := mHitCount c + 1\<rparr>),
      GetEarlyOutFraction = (\<lambda>c. early_out_fraction),
      ShouldEarlyOut = (\<lambda>c. should_early_out),
      sGetBodyID = (\<lambda>c. body)\<rparr>"

text \<open>
  The operations on the bounding box and on floats that \<open>CollidePoint\<close> uses are external:
  \<open>AABox::Contains\<close>, \<open>GetSize().GetY()\<close>, the product of two floats, the constant \<open>1.1f\<close> and
  the product of a float with \<open>Vec3::sAxisY()\<close>. The collector of \<open>CollidePoint\<close> is external
  as well.
\<close>

record ('f, 'v, 'box) box_geometry =
  Contains :: "'box \<Rightarrow> 'v \<Rightarrow> bool"
  GetSizeY :: "'box \<Rightarrow> 'f"
  fmul :: "'f \<Rightarrow> 'f \<Rightarrow> 'f"
  one_point_one :: 'f
  times_sAxisY :: "'f \<Rightarrow> 'v"

record 'bid CollidePointResult =
  point_mBodyID :: 'bid
  point_mSubShapeID2 :: SubShapeID

record ('p, 'bid) point_collector_class =
  AddPointHit :: "'p \<Rightarrow> 'bid CollidePointResult \<Rightarrow> 'p"
  point_sGetBodyID :: "'p \<Rightarrow> 'bid"

definition up_ray :: "('f, 'v, 'box) box_geometry \<Rightarrow> 'box \<Rightarrow> 'v \<Rightarrow> 'v RayCast" where
  "up_ray A bounds inPoint =
     \<lparr>mOrigin = inPoint, mDirection = times_sAxisY A (fmul A (one_point_one A) (GetSizeY A bounds))\<rparr>"

definition CollidePoint ::
  "constants \<Rightarrow> ('f :: {linorder, zero}, 'v, 'box) ray_geometry \<Rightarrow> ('f, 'v, 'box) box_geometry
     \<Rightarrow> ('p, 'bid) point_collector_class \<Rightarrow> 'f \<Rightarrow> bool \<Rightarrow> 'bid
     \<Rightarrow> ('box, 'v) node \<Rightarrow> nat \<Rightarrow> 'box \<Rightarrow> 'v \<Rightarrow> SubShapeID \<Rightarrow> 'p \<Rightarrow> 'p" where
  "CollidePoint C G A P early_out_fraction should_early_out body root block_id_bits bounds
       inPoint inSubShapeIDCreator ioCollector =
     (if Contains A bounds inPoint then
        let collector =
              CastRay_collector C G (HitCountCollector_class early_out_fraction should_early_out body)
                root block_id_bits (up_ray A bounds inPoint) CollideWithBackFaces
                inSubShapeIDCreator \<lparr>mHitCount = 0, mSubShapeID = []\<rparr>
        in if mHitCount collector AND 1 = 1
           then AddPointHit P ioCollector
                  \<lparr>point_mBodyID = point_sGetBodyID P ioCollector,
                   point_mSubShapeID2 = mSubShapeID collector\<rparr>
           else ioCollector
      else ioCollector)"

text \<open>The hits of a ray cast, in the order in which they are reported, for a collector
  that keeps its early out fraction.\<close>

definition hit_log_class :: "'f \<Rightarrow> bool \<Rightarrow> 'bid \<Rightarrow> (('f, 'bid) RayCastResult list, 'f, 'bid) collector_class" where
  "hit_log_class early_out_fraction should_early_out body =
     \<lparr>AddHit = (\<lambda>c inResult. c @ [inResult]),
      GetEarlyOutFraction = (\<lambda>c. early_out_fraction),
      ShouldEarlyOut = (\<lambda>c. should_early_out),
      sGetBodyID = (\<lambda>c. body)\<rparr>"

definition counts :: "HitCountCollector \<Rightarrow> ('f, 'bid) RayCastResult list \<Rightarrow> bool" where
  "counts c hits =
     (mHitCount c = of_nat (length hits)
      \<and> mSubShapeID c = (if hits = [] then [] else mSubShapeID2 (last hits)))"

lemma counts_report_triangle:
  assumes "counts c hits"
  shows "counts (report_triangle C G (HitCountCollector_class e a b) Q block_id it c)
           (report_triangle C G (hit_log_class e a b) Q block_id it hits)"
  using assms
  by (simp add: report_triangle_def HitCountCollector_class_def hit_log_class_def counts_def)

lemma counts_report_leaf:
  assumes "counts c hits"
  shows "counts (report_leaf C G (HitCountCollector_class e a b) Q block_id triangles c)
           (report_leaf C G (hit_log_class e a b) Q block_id triangles hits)"
proof -
  have "counts (fold (report_triangle C G (HitCountCollector_class e a b) Q block_id) its c)
           (fold (report_triangle C G (hit_log_class e a b) Q block_id) its hits)" for its
    using assms
  proof (induction its arbitrary: c hits)
    case Nil
    then show ?case by simp
  next
    case (Cons it its)
    from Cons.IH [OF counts_report_triangle [OF Cons.prems]] show ?case by simp
  qed
  then show ?thesis by (simp add: report_leaf_def)
qed

lemma CastRay_collector_counts:
  fixes e :: "'f :: {linorder, zero}" and b :: 'bid
  shows "counts (CastRay_collector C G (HitCountCollector_class e a b) root bits inRay mode creator
             \<lparr>mHitCount = 0, mSubShapeID = []\<rparr>)
          (CastRay_collector C G (hit_log_class e a b) root bits inRay mode creator [])"
proof -
  let ?Q = "\<lparr>mRay = inRay, mBackFaceMode = mode, mTriangleBlockIDBits = bits,
           mSubShapeIDCreator = creator\<rparr>"
  let ?V1 = "CastRayVisitor C G (HitCountCollector_class e a b) ?Q"
  let ?V2 = "CastRayVisitor C G (hit_log_class e a b) ?Q"
  define R where "R = (\<lambda>(s1 :: (HitCountCollector, 'f) CastRayVisitor)
                         (s2 :: (('f, 'bid) RayCastResult list, 'f) CastRayVisitor).
      mDistanceStack s1 = mDistanceStack s2 \<and> counts (mCollector s1) (mCollector s2))"
  have init: "R \<lparr>mCollector = \<lparr>mHitCount = 0, mSubShapeID = []\<rparr>, mDistanceStack = (\<lambda>i. 0)\<rparr>
                \<lparr>mCollector = [], mDistanceStack = (\<lambda>i. 0)\<rparr>"
    by (simp add: R_def counts_def)
  have "R (snd (WalkTree ?V1 [root] \<lparr>mCollector = \<lparr>mHitCount = 0, mSubShapeID = []\<rparr>, mDistanceStack = (\<lambda>i. 0)\<rparr>))
          (snd (WalkTree ?V2 [root] \<lparr>mCollector = [], mDistanceStack = (\<lambda>i. 0)\<rparr>))"
  proof (rule WalkTree_related [where R = R, THEN conjunct2])
    show "R \<lparr>mCollector = \<lparr>mHitCount = 0, mSubShapeID = []\<rparr>, mDistanceStack = (\<lambda>i. 0)\<rparr>
                \<lparr>mCollector = [], mDistanceStack = (\<lambda>i. 0)\<rparr>"
      by (rule init)
    show "\<And>a b. R a b \<Longrightarrow> ShouldAbort ?V1 a = ShouldAbort ?V2 b"
      by (simp add: CastRayVisitor_def HitCountCollector_class_def hit_log_class_def)
    show "\<And>a b n. R a b \<Longrightarrow> ShouldVisitNode ?V1 a n = ShouldVisitNode ?V2 b n"
      by (simp add: R_def CastRayVisitor_def HitCountCollector_class_def hit_log_class_def)
    show "\<And>a b bs n. R a b \<Longrightarrow> snd (VisitNodes ?V1 a bs n) = snd (VisitNodes ?V2 b bs n)
                  \<and> R (fst (VisitNodes ?V1 a bs n)) (fst (VisitNodes ?V2 b bs n))"
      by (simp add: R_def CastRayVisitor_def HitCountCollector_class_def hit_log_class_def Let_def)
    show "\<And>a b ts n. R a b \<Longrightarrow> R (VisitTriangles ?V1 a ts n) (VisitTriangles ?V2 b ts n)"
      by (simp add: R_def VisitTriangles_report_leaf counts_report_leaf)
  qed
  then show ?thesis by (simp add: CastRay_collector_def R_def)
qed

lemma word_parity: "(of_nat n :: u32) AND 1 = 1 \<longleftrightarrow> odd n"
proof -
  have "(of_nat n :: u32) AND 1 = 1 \<longleftrightarrow> odd (of_nat n :: u32)"
    by (simp only: and_one_eq odd_iff_mod_2_eq_one)
  also have "\<dots> \<longleftrightarrow> odd n" by simp
  finally show ?thesis .
qed

text \<open>
  C7: for a point outside the root bounding box \<open>CollidePoint\<close> leaves the collector as it
  is. For a point inside, it casts the ray from the point along \<open>1.1f * height * sAxisY\<close>
  with \<open>CollideWithBackFaces\<close>; it reports one hit exactly when the number of hits of that ray
  cast is odd, with the sub-shape ID of the last hit of the cast, and none otherwise.
\<close>

theorem CollidePoint_parity:
  fixes early_out_fraction :: "'f :: {linorder, zero}" and body :: 'bid
  shows
  "(\<not> Contains A bounds inPoint \<longrightarrow>
      CollidePoint C G A P early_out_fraction should_early_out body root block_id_bits bounds
        inPoint inSubShapeIDCreator ioCollector = ioCollector)
   \<and> (Contains A bounds inPoint \<longrightarrow>
      CollidePoint C G A P early_out_fraction should_early_out body root block_id_bits bounds
        inPoint inSubShapeIDCreator ioCollector
      = (let hits = CastRay_collector C G (hit_log_class early_out_fraction should_early_out body)
                      root block_id_bits
                      \<lparr>mOrigin = inPoint,
                       mDirection = times_sAxisY A (fmul A (one_point_one A) (GetSizeY A bounds))\<rparr>
                      CollideWithBackFaces inSubShapeIDCreator []
         in if odd (length hits)
            then AddPointHit P ioCollector
                   \<lparr>point_mBodyID = point_sGetBodyID P ioCollector,
                    point_mSubShapeID2 = mSubShapeID2 (last hits)\<rparr>
            else ioCollector))"
proof -
  let ?hits = "CastRay_collector C G (hit_log_class early_out_fraction should_early_out body)
                      root block_id_bits (up_ray A bounds inPoint)
                      CollideWithBackFaces inSubShapeIDCreator []"
  let ?c = "CastRay_collector C G (HitCountCollector_class early_out_fraction should_early_out body)
                root block_id_bits (up_ray A bounds inPoint) CollideWithBackFaces
                inSubShapeIDCreator \<lparr>mHitCount = 0, mSubShapeID = []\<rparr>"
  have c: "counts ?c ?hits" by (rule CastRay_collector_counts)
  then have p: "mHitCount ?c AND 1 = 1 \<longleftrightarrow> odd (length ?hits)"
    by (simp add: counts_def word_parity)
  have i: "odd (length ?hits) \<Longrightarrow> mSubShapeID ?c = mSubShapeID2 (last ?hits)"
    using c by (auto simp: counts_def)
  show ?thesis
    using p i by (simp add: CollidePoint_def Let_def up_ray_def [symmetric])
qed

subsection \<open>A concrete ray cast\<close>

text \<open>
  Numbers for vectors, boxes and fractions: the distance of a box is the box, the fraction
  of a triangle is its first vertex, cross and dot product are the product.
\<close>

definition example_ray_geometry :: "(int, int, int) ray_geometry" where
  "example_ray_geometry =
     \<lparr>RayAABox = (\<lambda>origin inv_direction box. box), RayInvDirection = (\<lambda>d. d),
      RayTriangle = (\<lambda>origin direction v0 v1 v2. v0),
      Minus = (\<lambda>a b. a - b), Cross = (\<lambda>a b. a * b), Dot = (\<lambda>a b. a * b)\<rparr>"

definition example_box_geometry :: "(int, int, int) box_geometry" where
  "example_box_geometry =
     \<lparr>Contains = (\<lambda>box p. 0 \<le> p \<and> p \<le> box), GetSizeY = (\<lambda>box. box),
      fmul = (\<lambda>a b. a * b), one_point_one = 2, times_sAxisY = (\<lambda>f. f)\<rparr>"

definition example_point_collector :: "(nat CollidePointResult list, nat) point_collector_class" where
  "example_point_collector = \<lparr>AddPointHit = (\<lambda>c h. c @ [h]), point_sGetBodyID = (\<lambda>c. 7)\<rparr>"

definition example_tree :: "(int, int) node" where
  "example_tree =
     Inner [(1, Leaf 0 [((5, 6, 8), 0), ((1, 5, 0), 0), ((150, 0, 0), 0)]),
            (50, Leaf 1 [((3, 9, 4), 0)]),
            (200, Leaf 2 [((2, 0, 0), 0)])]"

definition example_closest_collector :: "((int, nat) RayCastResult list, int, nat) collector_class" where
  "example_closest_collector =
     \<lparr>AddHit = (\<lambda>c inResult. c @ [inResult]),
      GetEarlyOutFraction = (\<lambda>c. if c = [] then 100 else mFraction (last c)),
      ShouldEarlyOut = (\<lambda>c. c \<noteq> [] \<and> mFraction (last c) \<le> 0),
      sGetBodyID = (\<lambda>c. 7)\<rparr>"

text \<open>
  A leaf of five triangles under \<open>IgnoreBackFaces\<close>, with a collector that keeps the closest
  hit: the fourth triangle is back facing, the third is not closer, the fifth ends the walk.
\<close>

lemma CastRayVisitor_visit_and_abort_example:
  "WalkTree
     (CastRayVisitor example_constants example_ray_geometry example_closest_collector
        \<lparr>mRay = \<lparr>mOrigin = 0, mDirection = 1\<rparr>, mBackFaceMode = IgnoreBackFaces,
         mTriangleBlockIDBits = 2, mSubShapeIDCreator = []\<rparr>)
     [Leaf 2 [((5, 6, 8), 0), ((3, 9, 4), 0), ((7, 1, 1), 0), ((1, 5, 0), 0), ((0, 1, 2), 0)],
      Leaf 3 [((0, 0, 0), 0)]]
     \<lparr>mCollector = [], mDistanceStack = (\<lambda>i. 0)\<rparr>
   = ([Leaf 2 [((5, 6, 8), 0), ((3, 9, 4), 0), ((7, 1, 1), 0), ((1, 5, 0), 0), ((0, 1, 2), 0)],
       Leaf 3 [((0, 0, 0), 0)]],
      \<lparr>mCollector =
         [\<lparr>mBodyID = 7, mFraction = 5, mSubShapeID2 = [False, True, False, False, False]\<rparr>,
          \<lparr>mBodyID = 7, mFraction = 3, mSubShapeID2 = [False, True, True, False, False]\<rparr>,
          \<lparr>mBodyID = 7, mFraction = 0, mSubShapeID2 = [False, True, False, False, True]\<rparr>],
       mDistanceStack = (\<lambda>i. 0)\<rparr>)"
proof -
  let ?Q = "\<lparr>mRay = \<lparr>mOrigin = 0 :: int, mDirection = 1\<rparr>, mBackFaceMode = IgnoreBackFaces,
         mTriangleBlockIDBits = 2, mSubShapeIDCreator = []\<rparr> :: (int, int, int) ray_query"
  let ?tris = "[((5, 6, 8), 0), ((3, 9, 4), 0), ((7, 1, 1), 0), ((1, 5, 0), 0), ((0, 1, 2), 0)]
                :: int triangle list"
  have r: "report_leaf example_constants example_ray_geometry example_closest_collector ?Q 2 ?tris []
      = [\<lparr>mBodyID = 7, mFraction = 5, mSubShapeID2 = [False, True, False, False, False]\<rparr>,
          \<lparr>mBodyID = 7, mFraction = 3, mSubShapeID2 = [False, True, True, False, False]\<rparr>,
          \<lparr>mBodyID = 7, mFraction = 0, mSubShapeID2 = [False, True, False, False, True]\<rparr>]"
    by code_simp
  have e: "ShouldEarlyOut example_closest_collector
      (report_leaf example_constants example_ray_geometry example_closest_collector ?Q 2 ?tris
         (mCollector \<lparr>mCollector = [], mDistanceStack = (\<lambda>i. 0 :: int)\<rparr>))"
    by (simp only: CastRayVisitor.simps r) (simp add: example_closest_collector_def)
  have w: "WalkTree (CastRayVisitor example_constants example_ray_geometry example_closest_collector ?Q)
      (Leaf 2 ?tris # [Leaf 3 [((0, 0, 0), 0)]]) \<lparr>mCollector = [], mDistanceStack = (\<lambda>i. 0)\<rparr>
    = (Leaf 2 ?tris # [Leaf 3 [((0, 0, 0), 0)]],
       \<lparr>mCollector = [], mDistanceStack = (\<lambda>i. 0)\<rparr>\<lparr>mCollector :=
          report_leaf example_constants example_ray_geometry example_closest_collector ?Q 2 ?tris
            (mCollector \<lparr>mCollector = [], mDistanceStack = (\<lambda>i. 0 :: int)\<rparr>)\<rparr>)"
    by (rule CastRayVisitor_visit_and_abort [THEN conjunct2, THEN conjunct2, THEN conjunct2,
          THEN conjunct2, THEN conjunct1, rule_format, OF e])
  show ?thesis unfolding w by (simp only: CastRayVisitor.simps r)
qed

text \<open>A point inside the box with three hits above it, and a point outside the box.\<close>

theorem CollidePoint_parity_witness:
  "CollidePoint example_constants example_ray_geometry example_box_geometry example_point_collector
     100 False 7 example_tree 2 10 3 [] []
   = [\<lparr>point_mBodyID = 7, point_mSubShapeID2 = [True, False, False, False, False]\<rparr>]
   \<and> CollidePoint example_constants example_ray_geometry example_box_geometry example_point_collector
     100 False 7 example_tree 2 10 11 [] []
   = []"
proof -
  have h: "CastRay_collector example_constants example_ray_geometry (hit_log_class 100 False (7 :: nat))
      example_tree 2 \<lparr>mOrigin = 3, mDirection = 20\<rparr> CollideWithBackFaces [] []
     = [\<lparr>mBodyID = 7, mFraction = 5, mSubShapeID2 = [False, False, False, False, False]\<rparr>,
        \<lparr>mBodyID = 7, mFraction = 1, mSubShapeID2 = [False, False, True, False, False]\<rparr>,
        \<lparr>mBodyID = 7, mFraction = 3, mSubShapeID2 = [True, False, False, False, False]\<rparr>]"
    by code_simp
  have inside: "Contains example_box_geometry 10 3" and outside: "\<not> Contains example_box_geometry 10 11"
    by (simp_all add: example_box_geometry_def)
  have d: "times_sAxisY example_box_geometry
             (fmul example_box_geometry (one_point_one example_box_geometry)
                (GetSizeY example_box_geometry 10)) = 20"
    by (simp add: example_box_geometry_def)
  have "CollidePoint example_constants example_ray_geometry example_box_geometry example_point_collector
     100 False 7 example_tree 2 10 3 [] []
   = [\<lparr>point_mBodyID = 7, point_mSubShapeID2 = [True, False, False, False, False]\<rparr>]"
    using CollidePoint_parity [where C = example_constants and G = example_ray_geometry
        and A = example_box_geometry and P = example_point_collector and early_out_fraction = 100
        and should_early_out = False and body = "7 :: nat" and root = example_tree
        and block_id_bits = 2 and bounds = 10 and inPoint = 3 and inSubShapeIDCreator = "[]"
        and ioCollector = "[]"] inside
    by (simp add: d h example_point_collector_def)
  moreover have "CollidePoint example_constants example_ray_geometry example_box_geometry example_point_collector
     100 False 7 example_tree 2 10 11 [] [] = []"
    using CollidePoint_parity [where C = example_constants and G = example_ray_geometry
        and A = example_box_geometry and P = example_point_collector and early_out_fraction = 100
        and should_early_out = False and body = "7 :: nat" and root = example_tree
        and block_id_bits = 2 and bounds = 10 and inPoint = 11 and inSubShapeIDCreator = "[]"
        and ioCollector = "[]"] outside
    by simp
  ultimately show ?thesis by blast
qed

section \<open>MeshShape::GetTrianglesStart and GetTrianglesNext\<close>

text \<open>
  The vector, matrix and box operations used by \<open>MSGetTrianglesContext\<close> are parameters:
  \<open>sInverseRotationTranslation_box\<close> builds the oriented box of the query,
  \<open>sRotationTranslation_sScale\<close> the product \<open>sRotationTranslation * sScale\<close>.
\<close>

record ('v, 'box, 'obox, 'mat, 'rot) placement =
  sInverseRotationTranslation_box :: "'rot \<Rightarrow> 'v \<Rightarrow> 'box \<Rightarrow> 'obox"
  sRotationTranslation_sScale :: "'rot \<Rightarrow> 'v \<Rightarrow> 'v \<Rightarrow> 'mat"
  IsInsideOut :: "'v \<Rightarrow> bool"
  AABox4Scale :: "'v \<Rightarrow> 'box \<Rightarrow> 'box"
  AABox4VsBox :: "'obox \<Rightarrow> 'box \<Rightarrow> bool"
  Multiply :: "'mat \<Rightarrow> 'v \<Rightarrow> 'v"

text \<open>
  The context of a query. The output pointers \<open>mTriangleVertices\<close> and \<open>mMaterials\<close> are
  the lists written so far (\<open>mMaterials_out = None\<close> is the null pointer); \<open>mDecodeCtx\<close> is
  the node stack of the walker.
\<close>

record ('v, 'box, 'obox, 'mat, 'm) MSGetTrianglesContext =
  mDecodeCtx :: "('box, 'v) node list"
  mShape_mMaterials :: "'m list"
  mLocalBox :: 'obox
  mMeshScale :: 'v
  mLocalToWorld :: 'mat
  mMaxTrianglesRequested :: nat
  mTriangleVertices_out :: "'v list"
  mNumTrianglesFound :: nat
  mMaterials_out :: "'m option list option"
  mShouldAbort :: bool
  mIsInsideOut :: bool

definition MaxTrianglesPerLeaf :: "constants \<Rightarrow> nat" where
  "MaxTrianglesPerLeaf C = 2 ^ NumTriangleBits C"

definition GetTrianglesStart ::
  "('v, 'box, 'obox, 'mat, 'rot) placement \<Rightarrow> ('box, 'v) node \<Rightarrow> 'm list \<Rightarrow> 'box \<Rightarrow> 'v \<Rightarrow> 'rot \<Rightarrow> 'v
     \<Rightarrow> ('v, 'box, 'obox, 'mat, 'm) MSGetTrianglesContext" where
  "GetTrianglesStart M root materials inBox inPositionCOM inRotation inScale =
     \<lparr>mDecodeCtx = [root],
      mShape_mMaterials = materials,
      mLocalBox = sInverseRotationTranslation_box M inRotation inPositionCOM inBox,
      mMeshScale = inScale,
      mLocalToWorld = sRotationTranslation_sScale M inRotation inPositionCOM inScale,
      mMaxTrianglesRequested = 0,
      mTriangleVertices_out = [],
      mNumTrianglesFound = 0,
      mMaterials_out = None,
      mShouldAbort = False,
      mIsInsideOut = IsInsideOut M inScale\<rparr>"

definition store_vertices ::
  "('v, 'box, 'obox, 'mat, 'rot) placement \<Rightarrow> 'mat \<Rightarrow> bool \<Rightarrow> 'v triangle \<Rightarrow> 'v list" where
  "store_vertices M local_to_world inside_out tri =
     (case fst tri of (v0, v1, v2) \<Rightarrow>
        if inside_out
        then [Multiply M local_to_world v0, Multiply M local_to_world v2, Multiply M local_to_world v1]
        else [Multiply M local_to_world v0, Multiply M local_to_world v1, Multiply M local_to_world v2])"

definition material_of :: "constants \<Rightarrow> 'm list \<Rightarrow> 'v triangle \<Rightarrow> 'm option" where
  "material_of C materials tri =
     (if (unat (snd tri) AND FLAGS_MATERIAL_MASK C) < length materials
      then Some (materials ! (unat (snd tri) AND FLAGS_MATERIAL_MASK C)) else None)"

definition GetTriangles_VisitTriangles ::
  "constants \<Rightarrow> ('v, 'box, 'obox, 'mat, 'rot) placement \<Rightarrow> 'm
     \<Rightarrow> ('v, 'box, 'obox, 'mat, 'm) MSGetTrianglesContext \<Rightarrow> 'v triangle list \<Rightarrow> nat
     \<Rightarrow> ('v, 'box, 'obox, 'mat, 'm) MSGetTrianglesContext" where
  "GetTriangles_VisitTriangles C M sDefault this triangles inTriangleBlockID =
     (if mNumTrianglesFound this + length triangles > mMaxTrianglesRequested this
      then this\<lparr>mShouldAbort := True\<rparr>
      else this
        \<lparr>mTriangleVertices_out := mTriangleVertices_out this
            @ concat (map (store_vertices M (mLocalToWorld this) (mIsInsideOut this)) triangles),
         mMaterials_out :=
           (case mMaterials_out this of
              None \<Rightarrow> None
            | Some written \<Rightarrow>
                if mShape_mMaterials this = []
                then Some (written @ map (\<lambda>tri. Some sDefault) triangles)
                else Some (written @ map (material_of C (mShape_mMaterials this)) triangles)),
         mNumTrianglesFound := mNumTrianglesFound this + length triangles\<rparr>)"

definition GetTrianglesVisitor ::
  "constants \<Rightarrow> ('v, 'box, 'obox, 'mat, 'rot) placement \<Rightarrow> 'm
     \<Rightarrow> (('v, 'box, 'obox, 'mat, 'm) MSGetTrianglesContext, 'box, 'v) visitor" where
  "GetTrianglesVisitor C M sDefault =
     \<lparr>ShouldAbort = (\<lambda>this. mShouldAbort this),
      ShouldVisitNode = (\<lambda>this inStackTop. True),
      VisitNodes = (\<lambda>this bounds inStackTop.
        (this, filter (\<lambda>i. AABox4VsBox M (mLocalBox this) (AABox4Scale M (mMeshScale this) (bounds ! i)))
                 [0..<length bounds])),
      VisitTriangles = GetTriangles_VisitTriangles C M sDefault\<rparr>"

text \<open>
  \<open>GetTrianglesNext\<close> starts with
  \<open>JPH_ASSERT(inMaxTrianglesRequested >= cGetTrianglesMinTrianglesRequested)\<close>. The constant is
  declared in \<open>Shape.h\<close>, which is not among the sources: it is the argument
  \<open>cGetTrianglesMinTrianglesRequested\<close>, and the \<open>static_assert\<close> that it is at least
  \<open>MaxTrianglesPerLeaf\<close> is a hypothesis where it is needed. A call that violates the assertion
  fails with \<open>TooFewTrianglesRequested\<close>.
\<close>

definition GetTrianglesNext ::
  "constants \<Rightarrow> nat \<Rightarrow> ('v, 'box, 'obox, 'mat, 'rot) placement \<Rightarrow> 'm
     \<Rightarrow> ('v, 'box, 'obox, 'mat, 'm) MSGetTrianglesContext \<Rightarrow> nat \<Rightarrow> bool
     \<Rightarrow> failure + nat \<times> 'v list \<times> 'm option list \<times> ('v, 'box, 'obox, 'mat, 'm) MSGetTrianglesContext" where
  "GetTrianglesNext C cGetTrianglesMinTrianglesRequested M sDefault ioContext
       inMaxTrianglesRequested outMaterials =
     (if inMaxTrianglesRequested < cGetTrianglesMinTrianglesRequested
      then Inl TooFewTrianglesRequested
      else if mDecodeCtx ioContext = [] then Inr (0, [], [], ioContext)
      else
        let context = ioContext
              \<lparr>mMaxTrianglesRequested := inMaxTrianglesRequested,
               mTriangleVertices_out := [],
               mMaterials_out := (if outMaterials then Some [] else None),
               mShouldAbort := False,
               mNumTrianglesFound := 0\<rparr>;
            walked = WalkTree (GetTrianglesVisitor C M sDefault) (mDecodeCtx context) context;
            context' = (snd walked)\<lparr>mDecodeCtx := fst walked\<rparr>
        in Inr (mNumTrianglesFound context', mTriangleVertices_out context',
                (case mMaterials_out context' of None \<Rightarrow> [] | Some written \<Rightarrow> written), context'))"

subsection \<open>The leaves that a walk selects\<close>

fun selected_leaves :: "('box \<Rightarrow> bool) \<Rightarrow> ('box, 'v) node \<Rightarrow> (nat \<times> 'v triangle list) list" where
  "selected_leaves P (Leaf block_id triangles) = [(block_id, triangles)]"
| "selected_leaves P (Inner children) =
     concat (map (\<lambda>c. if P (fst c) then selected_leaves P (snd c) else []) (rev children))"

definition stack_leaves :: "('box \<Rightarrow> bool) \<Rightarrow> ('box, 'v) node list \<Rightarrow> (nat \<times> 'v triangle list) list" where
  "stack_leaves P stack = concat (map (selected_leaves P) stack)"

fun consume :: "nat \<Rightarrow> (nat \<times> 'v triangle list) list
    \<Rightarrow> (nat \<times> 'v triangle list) list \<times> (nat \<times> 'v triangle list) list" where
  "consume room [] = ([], [])"
| "consume room (l # ls) =
     (if length (snd l) > room then ([], l # ls)
      else (l # fst (consume (room - length (snd l)) ls), snd (consume (room - length (snd l)) ls)))"

definition collides ::
  "('v, 'box, 'obox, 'mat, 'rot) placement \<Rightarrow> ('v, 'box, 'obox, 'mat, 'm) MSGetTrianglesContext
     \<Rightarrow> 'box \<Rightarrow> bool" where
  "collides M this box = AABox4VsBox M (mLocalBox this) (AABox4Scale M (mMeshScale this) box)"

definition write_leaf ::
  "constants \<Rightarrow> ('v, 'box, 'obox, 'mat, 'rot) placement \<Rightarrow> 'm
     \<Rightarrow> nat \<times> 'v triangle list \<Rightarrow> ('v, 'box, 'obox, 'mat, 'm) MSGetTrianglesContext
     \<Rightarrow> ('v, 'box, 'obox, 'mat, 'm) MSGetTrianglesContext" where
  "write_leaf C M sDefault l this =
     this
        \<lparr>mTriangleVertices_out := mTriangleVertices_out this
            @ concat (map (store_vertices M (mLocalToWorld this) (mIsInsideOut this)) (snd l)),
         mMaterials_out :=
           (case mMaterials_out this of
              None \<Rightarrow> None
            | Some written \<Rightarrow>
                if mShape_mMaterials this = []
                then Some (written @ map (\<lambda>tri. Some sDefault) (snd l))
                else Some (written @ map (material_of C (mShape_mMaterials this)) (snd l))),
         mNumTrianglesFound := mNumTrianglesFound this + length (snd l)\<rparr>"

lemma VisitTriangles_cases:
  "VisitTriangles (GetTrianglesVisitor C M d) s ts b =
     (if mNumTrianglesFound s + length ts > mMaxTrianglesRequested s then s\<lparr>mShouldAbort := True\<rparr>
      else write_leaf C M d (b, ts) s)"
  by (simp add: GetTrianglesVisitor_def GetTriangles_VisitTriangles_def write_leaf_def
      split: option.splits)

lemma write_leaf_fields:
  "mShouldAbort (write_leaf C M d l s) = mShouldAbort s"
  "mMaxTrianglesRequested (write_leaf C M d l s) = mMaxTrianglesRequested s"
  "mNumTrianglesFound (write_leaf C M d l s) = mNumTrianglesFound s + length (snd l)"
  "collides M (write_leaf C M d l s) = collides M s"
  by (simp_all add: write_leaf_def collides_def fun_eq_iff)

lemma next_node_GetTriangles: "next_node (GetTrianglesVisitor C M d) s stack = stack"
  by (cases stack) (simp_all add: GetTrianglesVisitor_def)

lemma lanes_filter_upt: "lanes n (filter Q [0..<n]) = filter Q [0..<n]"
proof -
  have "filter (\<lambda>i. i < n) (filter Q [0..<n]) = filter Q [0..<n]"
    by (simp only: filter_id_conv) simp
  then show ?thesis
    by (simp only: lanes_def) (simp add: distinct_remdups_id)
qed

lemma map_nth_filter_upt:
  "map (\<lambda>i. f (xs ! i)) (filter (\<lambda>i. Q (xs ! i)) [0..<length xs]) = map f (filter Q xs)"
proof -
  have "map f (filter Q xs) = map f (filter Q (map (\<lambda>i. xs ! i) [0..<length xs]))"
    by (simp add: map_nth)
  also have "\<dots> = map (\<lambda>i. f (xs ! i)) (filter (\<lambda>i. Q (xs ! i)) [0..<length xs])"
    by (simp add: filter_map comp_def)
  finally show ?thesis by simp
qed

lemma stack_leaves_push_children:
  "stack_leaves P (push_children children (filter (\<lambda>i. P (map fst children ! i)) [0..<length children]) rest)
     = stack_leaves P (Inner children # rest)"
proof -
  have f: "filter (\<lambda>i. P (map fst children ! i)) [0..<length children]
         = filter (\<lambda>i. P (fst (children ! i))) [0..<length children]"
    by (rule filter_cong) simp_all
  have "map (\<lambda>i. snd (children ! i)) (filter (\<lambda>i. P (fst (children ! i))) [0..<length children])
      = map snd (filter (\<lambda>c. P (fst c)) children)"
    by (rule map_nth_filter_upt)
  then have "push_children children (filter (\<lambda>i. P (map fst children ! i)) [0..<length children]) rest
      = rev (map snd (filter (\<lambda>c. P (fst c)) children)) @ rest"
    by (simp add: push_children_def f lanes_filter_upt)
  moreover have "concat (map (selected_leaves P) (rev (map snd (filter (\<lambda>c. P (fst c)) children))))
      = concat (map (\<lambda>c. if P (fst c) then selected_leaves P (snd c) else []) (rev children))"
    by (induction children) (simp_all add: rev_map)
  ultimately show ?thesis
    by (simp add: stack_leaves_def)
qed

lemma WalkTree_consume:
  assumes "V = GetTrianglesVisitor C M d" "\<not> mShouldAbort s"
    "mNumTrianglesFound s \<le> mMaxTrianglesRequested s"
  shows "snd (WalkTree V stack s)
      = (let c = consume (mMaxTrianglesRequested s - mNumTrianglesFound s) (stack_leaves (collides M s) stack);
             s' = fold (write_leaf C M d) (fst c) s
         in if snd c = [] then s' else s'\<lparr>mShouldAbort := True\<rparr>)
    \<and> stack_leaves (collides M s) (fst (WalkTree V stack s))
      = snd (consume (mMaxTrianglesRequested s - mNumTrianglesFound s) (stack_leaves (collides M s) stack))
    \<and> (snd (consume (mMaxTrianglesRequested s - mNumTrianglesFound s) (stack_leaves (collides M s) stack)) = []
         \<longrightarrow> fst (WalkTree V stack s) = [])"
  using assms
proof (induction V stack s rule: WalkTree.induct)
  case (1 V s)
  then show ?case by (simp add: stack_leaves_def)
next
  case (2 V block_id triangles rest s)
  note V = "2.prems"(1)
  let ?room = "mMaxTrianglesRequested s - mNumTrianglesFound s"
  have sl: "stack_leaves (collides M s) (Leaf block_id triangles # rest)
              = (block_id, triangles) # stack_leaves (collides M s) rest"
    by (simp add: stack_leaves_def)
  show ?case
  proof (cases "mNumTrianglesFound s + length triangles > mMaxTrianglesRequested s")
    case True
    then have big: "length triangles > ?room" using "2.prems"(3) by simp
    have vt: "VisitTriangles V s triangles block_id = s\<lparr>mShouldAbort := True\<rparr>"
      using True by (simp add: V VisitTriangles_cases)
    have ab: "ShouldAbort V (s\<lparr>mShouldAbort := True\<rparr>)"
      by (simp add: V GetTrianglesVisitor_def)
    show ?thesis
      using big ab by (simp add: vt sl)
  next
    case False
    then have fits: "\<not> length triangles > ?room" by simp
    let ?s1 = "write_leaf C M d (block_id, triangles) s"
    have vt: "VisitTriangles V s triangles block_id = ?s1"
      using False by (simp add: V VisitTriangles_cases)
    have na: "\<not> ShouldAbort V ?s1"
      using "2.prems"(2) by (simp add: V GetTrianglesVisitor_def write_leaf_fields)
    have nn: "next_node V ?s1 rest = rest" by (simp add: V next_node_GetTriangles)
    have w: "WalkTree V (Leaf block_id triangles # rest) s = WalkTree V rest ?s1"
      using na by (simp add: vt nn)
    have room1: "mMaxTrianglesRequested ?s1 - mNumTrianglesFound ?s1 = ?room - length triangles"
      by (simp add: write_leaf_fields)
    have pre: "\<not> mShouldAbort ?s1" "mNumTrianglesFound ?s1 \<le> mMaxTrianglesRequested ?s1"
      using "2.prems"(2) False by (simp_all add: write_leaf_fields)
    from "2.IH" [OF vt [symmetric], unfolded vt nn, OF na V pre]
    show ?thesis
      unfolding w using fits
      by (simp add: sl room1 write_leaf_fields Let_def)
  qed
next
  case (3 V children rest s)
  note V = "3.prems"(1)
  let ?sel = "filter (\<lambda>i. collides M s (map fst children ! i)) [0..<length children]"
  have vn: "VisitNodes V s (map fst children) (length rest) = (s, ?sel)"
    by (simp add: V GetTrianglesVisitor_def collides_def)
  have na: "\<not> ShouldAbort V s" using "3.prems"(2) by (simp add: V GetTrianglesVisitor_def)
  have nn: "next_node V s (push_children children ?sel rest) = push_children children ?sel rest"
    by (simp add: V next_node_GetTriangles)
  have w: "WalkTree V (Inner children # rest) s = WalkTree V (push_children children ?sel rest) s"
    using na by (simp add: vn nn Let_def)
  have sl: "stack_leaves (collides M s) (push_children children ?sel rest)
              = stack_leaves (collides M s) (Inner children # rest)"
    by (rule stack_leaves_push_children)
  from "3.IH" [OF refl refl, unfolded vn fst_conv snd_conv nn, OF na V "3.prems"(2,3)]
  show ?case
    unfolding w by (simp add: sl)
qed

text \<open>
  \<open>k\<close> successive calls of \<open>GetTrianglesNext\<close> on the same context: the count and the
  vertices that each call returned, and the context left behind; the failure of a call is the
  failure of the whole.
\<close>

fun GetTriangles_repeat ::
  "constants \<Rightarrow> nat \<Rightarrow> ('v, 'box, 'obox, 'mat, 'rot) placement \<Rightarrow> 'm \<Rightarrow> nat \<Rightarrow> bool \<Rightarrow> nat
     \<Rightarrow> ('v, 'box, 'obox, 'mat, 'm) MSGetTrianglesContext
     \<Rightarrow> failure + (nat \<times> 'v list) list \<times> ('v, 'box, 'obox, 'mat, 'm) MSGetTrianglesContext" where
  "GetTriangles_repeat C cMin M sDefault inMaxTrianglesRequested outMaterials 0 ioContext =
     Inr ([], ioContext)"
| "GetTriangles_repeat C cMin M sDefault inMaxTrianglesRequested outMaterials (Suc k) ioContext =
     (case GetTrianglesNext C cMin M sDefault ioContext inMaxTrianglesRequested outMaterials of
        Inl f \<Rightarrow> Inl f
      | Inr r \<Rightarrow>
          (case GetTriangles_repeat C cMin M sDefault inMaxTrianglesRequested outMaterials k
                  (snd (snd (snd r))) of
             Inl f \<Rightarrow> Inl f
           | Inr later \<Rightarrow> Inr ((fst r, fst (snd r)) # fst later, snd later)))"

definition stored ::
  "('v, 'box, 'obox, 'mat, 'rot) placement \<Rightarrow> ('v, 'box, 'obox, 'mat, 'm) MSGetTrianglesContext
     \<Rightarrow> (nat \<times> 'v triangle list) list \<Rightarrow> 'v list" where
  "stored M this leaves =
     concat (map (store_vertices M (mLocalToWorld this) (mIsInsideOut this)) (concat (map snd leaves)))"

definition triangle_count :: "(nat \<times> 'v triangle list) list \<Rightarrow> nat" where
  "triangle_count leaves = sum_list (map (\<lambda>l. length (snd l)) leaves)"

definition context_leaves ::
  "('v, 'box, 'obox, 'mat, 'rot) placement \<Rightarrow> ('v, 'box, 'obox, 'mat, 'm) MSGetTrianglesContext
     \<Rightarrow> (nat \<times> 'v triangle list) list" where
  "context_leaves M this = stack_leaves (collides M this) (mDecodeCtx this)"

lemma consume_append: "fst (consume room ls) @ snd (consume room ls) = ls"
  by (induction ls arbitrary: room) simp_all

lemma consume_progress:
  "ls \<noteq> [] \<Longrightarrow> length (snd (hd ls)) \<le> room \<Longrightarrow> fst (consume room ls) \<noteq> []"
  by (cases ls) auto

lemma fold_write_leaf:
  "mNumTrianglesFound (fold (write_leaf C M d) taken s) = mNumTrianglesFound s + triangle_count taken
   \<and> mTriangleVertices_out (fold (write_leaf C M d) taken s) = mTriangleVertices_out s @ stored M s taken
   \<and> mLocalBox (fold (write_leaf C M d) taken s) = mLocalBox s
   \<and> mMeshScale (fold (write_leaf C M d) taken s) = mMeshScale s
   \<and> mLocalToWorld (fold (write_leaf C M d) taken s) = mLocalToWorld s
   \<and> mIsInsideOut (fold (write_leaf C M d) taken s) = mIsInsideOut s"
proof (induction taken arbitrary: s)
  case Nil
  then show ?case by (simp add: triangle_count_def stored_def)
next
  case (Cons l taken)
  have "stored M (write_leaf C M d l s) taken = stored M s taken"
    by (simp add: stored_def write_leaf_def)
  moreover have "stored M s (l # taken)
      = concat (map (store_vertices M (mLocalToWorld s) (mIsInsideOut s)) (snd l)) @ stored M s taken"
    by (simp add: stored_def)
  ultimately show ?case
    using Cons.IH [of "write_leaf C M d l s"]
    by (simp add: triangle_count_def) (simp add: write_leaf_def)
qed

lemma GetTrianglesNext_consume:
  fixes ioContext :: "('v, 'box, 'obox, 'mat, 'm) MSGetTrianglesContext"
    and M :: "('v, 'box, 'obox, 'mat, 'rot) placement" and C d inMax outMaterials
  defines "c \<equiv> consume inMax (context_leaves M ioContext)"
  assumes enough: "cMin \<le> inMax"
  shows "\<exists>r. GetTrianglesNext C cMin M d ioContext inMax outMaterials = Inr r
      \<and> fst r = triangle_count (fst c)
      \<and> fst (snd r) = stored M ioContext (fst c)
      \<and> context_leaves M (snd (snd (snd r))) = snd c
      \<and> (snd c = [] \<longrightarrow> mDecodeCtx (snd (snd (snd r))) = [])
      \<and> mLocalBox (snd (snd (snd r))) = mLocalBox ioContext
      \<and> mMeshScale (snd (snd (snd r))) = mMeshScale ioContext
      \<and> mLocalToWorld (snd (snd (snd r))) = mLocalToWorld ioContext
      \<and> mIsInsideOut (snd (snd (snd r))) = mIsInsideOut ioContext"
proof (cases "mDecodeCtx ioContext = []")
  case True
  then have "GetTrianglesNext C cMin M d ioContext inMax outMaterials = Inr (0, [], [], ioContext)"
    using enough by (simp add: GetTrianglesNext_def)
  then show ?thesis
    using True
    by (simp add: c_def context_leaves_def stack_leaves_def triangle_count_def stored_def)
next
  case False
  let ?reset = "ioContext
            \<lparr>mMaxTrianglesRequested := inMax,
             mTriangleVertices_out := [],
             mMaterials_out := (if outMaterials then Some [] else None),
             mShouldAbort := False,
             mNumTrianglesFound := 0\<rparr>"
  let ?V = "GetTrianglesVisitor C M d"
  let ?w = "WalkTree ?V (mDecodeCtx ioContext) ?reset"
  let ?r = "(mNumTrianglesFound (snd ?w), mTriangleVertices_out (snd ?w),
             (case mMaterials_out (snd ?w) of None \<Rightarrow> [] | Some written \<Rightarrow> written),
             (snd ?w)\<lparr>mDecodeCtx := fst ?w\<rparr>)"
  have col: "collides M ?reset = collides M ioContext"
    by (simp add: collides_def fun_eq_iff)
  have cl: "consume (mMaxTrianglesRequested ?reset - mNumTrianglesFound ?reset)
              (stack_leaves (collides M ?reset) (mDecodeCtx ioContext)) = c"
    by (simp add: c_def context_leaves_def col)
  from WalkTree_consume [of ?V C M d ?reset "mDecodeCtx ioContext", unfolded cl]
  have s': "snd ?w = (let s' = fold (write_leaf C M d) (fst c) ?reset
                      in if snd c = [] then s' else s'\<lparr>mShouldAbort := True\<rparr>)"
    and left: "stack_leaves (collides M ioContext) (fst ?w) = snd c"
    and fin: "snd c = [] \<longrightarrow> fst ?w = []"
    by (simp_all add: col Let_def)
  have r: "GetTrianglesNext C cMin M d ioContext inMax outMaterials = Inr ?r"
    using False enough by (simp add: GetTrianglesNext_def Let_def)
  have st: "stored M ?reset (fst c) = stored M ioContext (fst c)"
    by (simp add: stored_def)
  let ?s1 = "fold (write_leaf C M d) (fst c) ?reset"
  have f: "mNumTrianglesFound ?s1 = triangle_count (fst c)"
    "mTriangleVertices_out ?s1 = stored M ioContext (fst c)"
    "mLocalBox ?s1 = mLocalBox ioContext" "mMeshScale ?s1 = mMeshScale ioContext"
    "mLocalToWorld ?s1 = mLocalToWorld ioContext" "mIsInsideOut ?s1 = mIsInsideOut ioContext"
    using fold_write_leaf [of C M d "fst c" ?reset] by (simp_all add: st)
  have w: "mNumTrianglesFound (snd ?w) = triangle_count (fst c)"
    "mTriangleVertices_out (snd ?w) = stored M ioContext (fst c)"
    "mLocalBox (snd ?w) = mLocalBox ioContext" "mMeshScale (snd ?w) = mMeshScale ioContext"
    "mLocalToWorld (snd ?w) = mLocalToWorld ioContext"
    "mIsInsideOut (snd ?w) = mIsInsideOut ioContext"
    unfolding s' Let_def using f by (simp_all only: split: if_splits) simp_all
  have col': "collides M ((snd ?w)\<lparr>mDecodeCtx := fst ?w\<rparr>) = collides M ioContext"
    using w by (simp add: collides_def fun_eq_iff)
  have "fst ?r = triangle_count (fst c)
      \<and> fst (snd ?r) = stored M ioContext (fst c)
      \<and> context_leaves M (snd (snd (snd ?r))) = snd c
      \<and> (snd c = [] \<longrightarrow> mDecodeCtx (snd (snd (snd ?r))) = [])
      \<and> mLocalBox (snd (snd (snd ?r))) = mLocalBox ioContext
      \<and> mMeshScale (snd (snd (snd ?r))) = mMeshScale ioContext
      \<and> mLocalToWorld (snd (snd (snd ?r))) = mLocalToWorld ioContext
      \<and> mIsInsideOut (snd (snd (snd ?r))) = mIsInsideOut ioContext"
    using w left fin by (simp add: context_leaves_def col')
  with r show ?thesis by blast
qed

lemma stored_append: "stored M s (xs @ ys) = stored M s xs @ stored M s ys"
  by (simp add: stored_def)

lemma triangle_count_append: "triangle_count (xs @ ys) = triangle_count xs + triangle_count ys"
  by (simp add: triangle_count_def)

lemma stored_cong:
  "mLocalToWorld s = mLocalToWorld t \<Longrightarrow> mIsInsideOut s = mIsInsideOut t
     \<Longrightarrow> stored M s xs = stored M t xs"
  by (simp add: stored_def)

lemma context_leaves_GetTrianglesStart:
  "context_leaves M (GetTrianglesStart M root materials inBox inPositionCOM inRotation inScale)
     = selected_leaves
         (\<lambda>box. AABox4VsBox M (sInverseRotationTranslation_box M inRotation inPositionCOM inBox)
                  (AABox4Scale M inScale box)) root"
proof -
  have "collides M (GetTrianglesStart M root materials inBox inPositionCOM inRotation inScale)
      = (\<lambda>box. AABox4VsBox M (sInverseRotationTranslation_box M inRotation inPositionCOM inBox)
                  (AABox4Scale M inScale box))"
    by (simp add: collides_def GetTrianglesStart_def fun_eq_iff)
  then show ?thesis
    by (simp add: context_leaves_def stack_leaves_def) (simp add: GetTrianglesStart_def)
qed

lemma GetTriangles_repeat_all:
  fixes ioContext :: "('v, 'box, 'obox, 'mat, 'm) MSGetTrianglesContext"
    and M :: "('v, 'box, 'obox, 'mat, 'rot) placement"
  assumes "cMin \<le> inMax"
    "list_all (\<lambda>l. length (snd l) \<le> inMax) (context_leaves M ioContext)"
    "length (context_leaves M ioContext) \<le> k"
  shows "\<exists>calls. GetTriangles_repeat C cMin M d inMax outMaterials k ioContext = Inr calls
       \<and> concat (map snd (fst calls)) = stored M ioContext (context_leaves M ioContext)
       \<and> sum_list (map fst (fst calls)) = triangle_count (context_leaves M ioContext)
       \<and> context_leaves M (snd calls) = []"
  using assms(2,3)
proof (induction k arbitrary: ioContext)
  case 0
  then show ?case by (simp add: stored_def triangle_count_def)
next
  case (Suc k)
  let ?L = "context_leaves M ioContext"
  let ?c = "consume inMax ?L"
  from GetTrianglesNext_consume [OF assms(1), of C M d ioContext outMaterials]
  obtain r where r: "GetTrianglesNext C cMin M d ioContext inMax outMaterials = Inr r"
    and n: "fst r = triangle_count (fst ?c)" "fst (snd r) = stored M ioContext (fst ?c)"
      "context_leaves M (snd (snd (snd r))) = snd ?c"
      "mLocalToWorld (snd (snd (snd r))) = mLocalToWorld ioContext"
      "mIsInsideOut (snd (snd (snd r))) = mIsInsideOut ioContext"
    by blast
  let ?ctx = "snd (snd (snd r))"
  have ap: "fst ?c @ snd ?c = ?L" by (rule consume_append)
  have left: "context_leaves M ?ctx = snd ?c" by (rule n(3))
  have "set (snd ?c) \<subseteq> set ?L"
    using ap by (metis Un_upper2 set_append)
  then have small: "list_all (\<lambda>l. length (snd l) \<le> inMax) (context_leaves M ?ctx)"
    using Suc.prems(1) unfolding left list_all_iff by blast
  have "length (snd ?c) \<le> k"
  proof (cases "?L = []")
    case True
    then show ?thesis using ap by simp
  next
    case False
    then have "length (snd (hd ?L)) \<le> inMax"
      using Suc.prems(1) by (cases ?L) simp_all
    then have "fst ?c \<noteq> []" using False by (rule consume_progress [rotated])
    then have "length (snd ?c) < length ?L"
      using arg_cong [OF ap, of length] by (cases "fst ?c") simp_all
    then show ?thesis using Suc.prems(2) by simp
  qed
  then have short: "length (context_leaves M ?ctx) \<le> k" by (simp only: left)
  from Suc.IH [OF small short] obtain later where
    later: "GetTriangles_repeat C cMin M d inMax outMaterials k ?ctx = Inr later"
    and ih: "concat (map snd (fst later)) = stored M ?ctx (context_leaves M ?ctx)"
      "sum_list (map fst (fst later)) = triangle_count (context_leaves M ?ctx)"
      "context_leaves M (snd later) = []"
    by blast
  have st: "stored M ?ctx (snd ?c) = stored M ioContext (snd ?c)"
    using n(4,5) by (intro stored_cong) simp_all
  have whole: "stored M ioContext ?L = stored M ioContext (fst ?c) @ stored M ioContext (snd ?c)"
    "triangle_count ?L = triangle_count (fst ?c) + triangle_count (snd ?c)"
    using stored_append [of M ioContext "fst ?c" "snd ?c"]
      triangle_count_append [of "fst ?c" "snd ?c"] by (simp_all only: ap)
  have "GetTriangles_repeat C cMin M d inMax outMaterials (Suc k) ioContext
      = Inr ((fst r, fst (snd r)) # fst later, snd later)"
    by (simp add: r later)
  then show ?case
    using ih n(1,2) by (simp add: left st whole)
qed

definition example_leaf_constants :: constants where
  "example_leaf_constants =
     \<lparr>FLAGS_MATERIAL_MASK = 31, FLAGS_ACTIVE_EGDE_SHIFT = 5, FLAGS_ACTIVE_EDGE_MASK = 7,
      NumTriangleBits = 1, MaxBits = 32\<rparr>"

definition example_placement :: "(int, int, int, int, int) placement" where
  "example_placement =
     \<lparr>sInverseRotationTranslation_box = (\<lambda>rotation position box. box - position),
      sRotationTranslation_sScale = (\<lambda>rotation position scale. position + scale),
      IsInsideOut = (\<lambda>scale. scale < 0),
      AABox4Scale = (\<lambda>scale box. scale * box),
      AABox4VsBox = (\<lambda>oriented box. box \<le> oriented),
      Multiply = (\<lambda>m v. m + v)\<rparr>"

definition example_region_tree :: "(int, int) node" where
  "example_region_tree =
     Inner [(4, Leaf 3 [((1, 2, 3), 0), ((4, 5, 6), 0)]),
            (20, Leaf 2 [((7, 8, 9), 0)]),
            (6, Inner [(1, Leaf 1 [((10, 11, 12), 0)]),
                       (2, Leaf 0 [((13, 14, 15), 0), ((16, 17, 18), 0)])])]"

definition example_context :: "(int, int, int, int, nat) MSGetTrianglesContext" where
  "example_context = GetTrianglesStart example_placement example_region_tree [] 10 0 0 1"

text \<open>
  C6, as stated: a request of \<open>MaxTrianglesPerLeaf\<close> triangles is enough. The assertion of
  \<open>GetTrianglesNext\<close> compares with \<open>cGetTrianglesMinTrianglesRequested\<close>, of which the source
  only says that it is at least \<open>MaxTrianglesPerLeaf\<close>. With 8 triangles per leaf and a minimum
  of 32, a request of 8 triangles is at least \<open>MaxTrianglesPerLeaf\<close>, and the call fails in the
  assertion: it returns none of the five selected triangles.
\<close>

theorem GetTrianglesNext_at_MaxTrianglesPerLeaf_counterexample:
  "MaxTrianglesPerLeaf example_constants = 8
   \<and> triangle_count (context_leaves example_placement example_context) = 5
   \<and> list_all (\<lambda>l. length (snd l) \<le> MaxTrianglesPerLeaf example_constants)
        (context_leaves example_placement example_context)
   \<and> GetTrianglesNext example_constants 32 example_placement (0 :: nat) example_context
        (MaxTrianglesPerLeaf example_constants) False
     = Inl TooFewTrianglesRequested"
proof -
  have "context_leaves example_placement example_context
      = [(0, [((13, 14, 15), 0), ((16, 17, 18), 0)]), (1, [((10, 11, 12), 0)]),
         (3, [((1, 2, 3), 0), ((4, 5, 6), 0)])]"
    by code_simp
  then show ?thesis
    by (simp add: GetTrianglesNext_def MaxTrianglesPerLeaf_def example_constants_def
        triangle_count_def)
qed

text \<open>
  C6, amended: the request is at least \<open>cGetTrianglesMinTrianglesRequested\<close>, which is at least
  \<open>MaxTrianglesPerLeaf\<close>, and no leaf is larger than \<open>MaxTrianglesPerLeaf\<close>. Then one call of
  \<open>GetTrianglesNext\<close> succeeds and writes the leaves that still have to be visited, in order, up
  to the first one whose triangles do not fit in what is left of the buffer; it returns the
  number of triangles written, and that leaf and all later ones are what the next call starts
  from. As many calls as there are selected leaves succeed and return together the stored
  vertices of every selected triangle, each once and in order, and the call after them
  returns 0 and writes nothing.
\<close>

theorem GetTrianglesNext_enumerates:
  fixes ioContext :: "('v, 'box, 'obox, 'mat, 'm) MSGetTrianglesContext"
    and M :: "('v, 'box, 'obox, 'mat, 'rot) placement"
  assumes "MaxTrianglesPerLeaf C \<le> cGetTrianglesMinTrianglesRequested"
    and "cGetTrianglesMinTrianglesRequested \<le> inMax"
    and "list_all (\<lambda>l. length (snd l) \<le> MaxTrianglesPerLeaf C) (context_leaves M ioContext)"
    and "length (context_leaves M ioContext) \<le> k"
  shows "\<exists>first calls last.
       GetTrianglesNext C cGetTrianglesMinTrianglesRequested M d ioContext inMax outMaterials = Inr first
       \<and> fst first = triangle_count (fst (consume inMax (context_leaves M ioContext)))
       \<and> fst (snd first) = stored M ioContext (fst (consume inMax (context_leaves M ioContext)))
       \<and> context_leaves M (snd (snd (snd first))) = snd (consume inMax (context_leaves M ioContext))
       \<and> GetTriangles_repeat C cGetTrianglesMinTrianglesRequested M d inMax outMaterials k ioContext
           = Inr calls
       \<and> concat (map snd (fst calls)) = stored M ioContext (context_leaves M ioContext)
       \<and> sum_list (map fst (fst calls)) = triangle_count (context_leaves M ioContext)
       \<and> GetTrianglesNext C cGetTrianglesMinTrianglesRequested M d (snd calls) inMax outMaterials
           = Inr last
       \<and> fst last = 0
       \<and> fst (snd last) = []"
proof -
  note enough = assms(2)
  from GetTrianglesNext_consume [OF enough, of C M d ioContext outMaterials]
  obtain first where first:
    "GetTrianglesNext C cGetTrianglesMinTrianglesRequested M d ioContext inMax outMaterials = Inr first"
    "fst first = triangle_count (fst (consume inMax (context_leaves M ioContext)))"
    "fst (snd first) = stored M ioContext (fst (consume inMax (context_leaves M ioContext)))"
    "context_leaves M (snd (snd (snd first))) = snd (consume inMax (context_leaves M ioContext))"
    by blast
  have "list_all (\<lambda>l. length (snd l) \<le> inMax) (context_leaves M ioContext)"
    using assms(1,2,3) unfolding list_all_iff by auto
  from GetTriangles_repeat_all [OF enough this assms(4), of C d outMaterials]
  obtain calls where calls:
    "GetTriangles_repeat C cGetTrianglesMinTrianglesRequested M d inMax outMaterials k ioContext
       = Inr calls"
    "concat (map snd (fst calls)) = stored M ioContext (context_leaves M ioContext)"
    "sum_list (map fst (fst calls)) = triangle_count (context_leaves M ioContext)"
    and e: "context_leaves M (snd calls) = []"
    by blast
  from GetTrianglesNext_consume [OF enough, of C M d "snd calls" outMaterials]
  obtain last where last:
    "GetTrianglesNext C cGetTrianglesMinTrianglesRequested M d (snd calls) inMax outMaterials = Inr last"
    "fst last = 0" "fst (snd last) = []"
    unfolding e by (auto simp: triangle_count_def stored_def)
  from first calls last show ?thesis by blast
qed

theorem GetTrianglesNext_enumerates_witness:
  "(\<exists>first calls last.
       GetTrianglesNext example_leaf_constants 2 example_placement (0 :: nat) example_context 2 False
         = Inr first
       \<and> fst first = 2
       \<and> fst (snd first) = [14, 15, 16, 17, 18, 19]
       \<and> context_leaves example_placement (snd (snd (snd first)))
           = [(1, [((10, 11, 12), 0)]), (3, [((1, 2, 3), 0), ((4, 5, 6), 0)])]
       \<and> GetTriangles_repeat example_leaf_constants 2 example_placement (0 :: nat) 2 False 3
           example_context = Inr calls
       \<and> concat (map snd (fst calls)) = [14, 15, 16, 17, 18, 19, 11, 12, 13, 2, 3, 4, 5, 6, 7]
       \<and> sum_list (map fst (fst calls)) = 5
       \<and> GetTrianglesNext example_leaf_constants 2 example_placement (0 :: nat) (snd calls) 2 False
           = Inr last
       \<and> fst last = 0
       \<and> fst (snd last) = [])"
proof -
  have leaves: "context_leaves example_placement example_context
      = [(0, [((13, 14, 15), 0), ((16, 17, 18), 0)]), (1, [((10, 11, 12), 0)]),
         (3, [((1, 2, 3), 0), ((4, 5, 6), 0)])]"
    by code_simp
  have size: "MaxTrianglesPerLeaf example_leaf_constants \<le> 2"
    by (simp add: MaxTrianglesPerLeaf_def example_leaf_constants_def)
  have small: "list_all (\<lambda>l. length (snd l) \<le> MaxTrianglesPerLeaf example_leaf_constants)
      (context_leaves example_placement example_context)"
    unfolding leaves by (simp add: MaxTrianglesPerLeaf_def example_leaf_constants_def)
  have calls: "length (context_leaves example_placement example_context) \<le> 3"
    unfolding leaves by simp
  have place: "mLocalToWorld example_context = 1" "mIsInsideOut example_context = False"
    by (simp_all add: example_context_def GetTrianglesStart_def example_placement_def)
  have c: "consume 2 [(0 :: nat, [((13 :: int, 14 :: int, 15 :: int), 0 :: u8), ((16, 17, 18), 0)]),
                      (1, [((10, 11, 12), 0)]), (3, [((1, 2, 3), 0), ((4, 5, 6), 0)])]
      = ([(0, [((13, 14, 15), 0), ((16, 17, 18), 0)])],
         [(1, [((10, 11, 12), 0)]), (3, [((1, 2, 3), 0), ((4, 5, 6), 0)])])"
    by simp
  have v: "stored example_placement example_context [(0, [((13, 14, 15), 0), ((16, 17, 18), 0)])]
      = [14, 15, 16, 17, 18, 19]"
    "stored example_placement example_context
       [(0, [((13, 14, 15), 0), ((16, 17, 18), 0)]), (1, [((10, 11, 12), 0)]),
        (3, [((1, 2, 3), 0), ((4, 5, 6), 0)])]
      = [14, 15, 16, 17, 18, 19, 11, 12, 13, 2, 3, 4, 5, 6, 7]"
    by (simp_all add: stored_def store_vertices_def place) (simp_all add: example_placement_def)
  have n: "triangle_count [(0 :: nat, [((13 :: int, 14 :: int, 15 :: int), 0 :: u8), ((16, 17, 18), 0)])] = 2"
    "triangle_count [(0 :: nat, [((13 :: int, 14 :: int, 15 :: int), 0 :: u8), ((16, 17, 18), 0)]),
        (1, [((10, 11, 12), 0)]), (3, [((1, 2, 3), 0), ((4, 5, 6), 0)])] = 5"
    by (simp_all add: triangle_count_def)
  show ?thesis
    using GetTrianglesNext_enumerates [OF size order_refl small calls, of "0 :: nat" False]
    unfolding leaves c fst_conv snd_conv v n .
qed


section \<open>The nearest-hit ray cast\<close>

text \<open>
  The state of the local \<open>Visitor\<close> of \<open>MeshShape::CastRay\<close> (the overload with a
  \<open>RayCastResult\<close>): the hit, which the visitor holds by reference and updates in place,
  the return value and the distance stack. The ray, the number of block id bits and the
  sub-shape id creator do not change, they are arguments.
\<close>

record ('f, 'bid) NearestVisitor =
  mHit :: "('f, 'bid) RayCastResult"
  mReturnValue :: bool
  nearest_mDistanceStack :: "nat \<Rightarrow> 'f"

text \<open>
  Modelled from the spec: \<open>TriangleCodec::DecodingContext::TestRay\<close> is not among the sources.
  The spec: it returns the closest hit among the triangles of the leaf. It starts from
  \<open>inClosest\<close>, keeps the smallest fraction that \<open>RayTriangle\<close> gives and the index of the
  triangle that gave it.
\<close>

fun TestRay_loop ::
  "('f :: {linorder, zero}, 'v, 'box) ray_geometry \<Rightarrow> 'v RayCast \<Rightarrow> nat \<Rightarrow> 'v triangle list \<Rightarrow> 'f \<Rightarrow> nat
     \<Rightarrow> 'f \<times> nat" where
  "TestRay_loop G inRay triangle_idx [] closest closest_triangle_idx = (closest, closest_triangle_idx)"
| "TestRay_loop G inRay triangle_idx (tri # rest) closest closest_triangle_idx =
     (if triangle_fraction G inRay tri < closest
      then TestRay_loop G inRay (triangle_idx + 1) rest (triangle_fraction G inRay tri) triangle_idx
      else TestRay_loop G inRay (triangle_idx + 1) rest closest closest_triangle_idx)"

definition TestRay ::
  "('f :: {linorder, zero}, 'v, 'box) ray_geometry \<Rightarrow> 'v RayCast \<Rightarrow> 'v triangle list \<Rightarrow> 'f \<Rightarrow> 'f \<times> nat" where
  "TestRay G inRay triangles inClosest = TestRay_loop G inRay 0 triangles inClosest 0"

definition CastRay_VisitTriangles ::
  "constants \<Rightarrow> ('f :: {linorder, zero}, 'v, 'box) ray_geometry \<Rightarrow> 'v RayCast \<Rightarrow> nat \<Rightarrow> SubShapeID
     \<Rightarrow> ('f, 'bid) NearestVisitor \<Rightarrow> 'v triangle list \<Rightarrow> nat \<Rightarrow> ('f, 'bid) NearestVisitor" where
  "CastRay_VisitTriangles C G inRay block_id_bits creator this triangles inTriangleBlockID =
     (let tested = TestRay G inRay triangles (mFraction (mHit this));
          fraction = fst tested;
          triangle_idx = snd tested
      in if fraction < mFraction (mHit this)
         then this\<lparr>mHit := (mHit this)
                 \<lparr>mFraction := fraction,
                  mSubShapeID2 := PushID C triangle_idx (NumTriangleBits C)
                                    (PushID C inTriangleBlockID block_id_bits creator)\<rparr>,
               mReturnValue := True\<rparr>
         else this)"

definition CastRay_nearest_Visitor ::
  "constants \<Rightarrow> ('f :: {linorder, zero}, 'v, 'box) ray_geometry \<Rightarrow> 'v RayCast \<Rightarrow> nat \<Rightarrow> SubShapeID
     \<Rightarrow> (('f, 'bid) NearestVisitor, 'box, 'v) visitor" where
  "CastRay_nearest_Visitor C G inRay block_id_bits creator =
     \<lparr>ShouldAbort = (\<lambda>this. mFraction (mHit this) \<le> 0),
      ShouldVisitNode = (\<lambda>this inStackTop. nearest_mDistanceStack this inStackTop < mFraction (mHit this)),
      VisitNodes = (\<lambda>this bounds inStackTop.
        let visited = RayVisitNodes G inRay (mFraction (mHit this))
                        (nearest_mDistanceStack this) bounds inStackTop
        in (this\<lparr>nearest_mDistanceStack := fst visited\<rparr>, snd visited)),
      VisitTriangles = CastRay_VisitTriangles C G inRay block_id_bits creator\<rparr>"

definition CastRay ::
  "constants \<Rightarrow> ('f :: {linorder, zero}, 'v, 'box) ray_geometry \<Rightarrow> ('box, 'v) node \<Rightarrow> nat
     \<Rightarrow> 'v RayCast \<Rightarrow> SubShapeID \<Rightarrow> ('f, 'bid) RayCastResult \<Rightarrow> bool \<times> ('f, 'bid) RayCastResult" where
  "CastRay C G root block_id_bits inRay inSubShapeIDCreator ioHit =
     (let visitor = snd (WalkTree (CastRay_nearest_Visitor C G inRay block_id_bits inSubShapeIDCreator)
                      [root] \<lparr>mHit = ioHit, mReturnValue = False, nearest_mDistanceStack = (\<lambda>i. 0)\<rparr>)
      in (mReturnValue visitor, mHit visitor))"

subsection \<open>The triangles of the mesh and the bounds of the tree\<close>

fun node_triangles :: "('box, 'v) node \<Rightarrow> (nat \<times> nat \<times> 'v triangle) list" where
  "node_triangles (Leaf block_id triangles) = map (\<lambda>it. (block_id, fst it, snd it)) (enumerate 0 triangles)"
| "node_triangles (Inner children) = concat (map (\<lambda>c. node_triangles (snd c)) children)"

definition hit_fraction ::
  "('f, 'v, 'box) ray_geometry \<Rightarrow> 'v RayCast \<Rightarrow> nat \<times> nat \<times> 'v triangle \<Rightarrow> 'f" where
  "hit_fraction G inRay x = triangle_fraction G inRay (snd (snd x))"

definition box_distance :: "('f, 'v, 'box) ray_geometry \<Rightarrow> 'v RayCast \<Rightarrow> 'box \<Rightarrow> 'f" where
  "box_distance G inRay box = RayAABox G (mOrigin inRay) (RayInvDirection G (mDirection inRay)) box"

text \<open>
  What the walk relies on, and what the builder of the tree and the ray primitives provide:
  a node has at most four children, and the distance at which the ray enters the bounding
  box of a child is not beyond the fraction of any triangle below that child (a triangle
  that the ray misses has the largest fraction).
\<close>

fun conservative :: "('f :: {linorder, zero}, 'v, 'box) ray_geometry \<Rightarrow> 'v RayCast \<Rightarrow> ('box, 'v) node \<Rightarrow> bool" where
  "conservative G inRay (Leaf block_id triangles) = True"
| "conservative G inRay (Inner children) =
     (length children \<le> 4
      \<and> list_all (\<lambda>c. conservative G inRay (snd c)
            \<and> list_all (\<lambda>x. box_distance G inRay (fst c) \<le> hit_fraction G inRay x)
                 (node_triangles (snd c))) children)"

subsection \<open>The closest hit of a leaf\<close>

lemma TestRay_loop_spec:
  "fst (TestRay_loop G inRay n ts c idx) \<le> c
   \<and> (\<forall>t \<in> set ts. fst (TestRay_loop G inRay n ts c idx) \<le> triangle_fraction G inRay t)
   \<and> (TestRay_loop G inRay n ts c idx = (c, idx)
      \<or> fst (TestRay_loop G inRay n ts c idx) < c
        \<and> n \<le> snd (TestRay_loop G inRay n ts c idx)
        \<and> snd (TestRay_loop G inRay n ts c idx) - n < length ts
        \<and> triangle_fraction G inRay (ts ! (snd (TestRay_loop G inRay n ts c idx) - n))
            = fst (TestRay_loop G inRay n ts c idx))"
proof (induction ts arbitrary: n c idx)
  case Nil
  then show ?case by simp
next
  case (Cons t ts)
  show ?case
  proof (cases "triangle_fraction G inRay t < c")
    case True
    let ?r = "TestRay_loop G inRay (Suc n) ts (triangle_fraction G inRay t) n"
    have r: "TestRay_loop G inRay n (t # ts) c idx = ?r" using True by simp
    note ih = Cons.IH [of "Suc n" "triangle_fraction G inRay t" n]
    from ih have le: "fst ?r \<le> triangle_fraction G inRay t" by simp
    from ih have all: "\<forall>t \<in> set ts. fst ?r \<le> triangle_fraction G inRay t" by simp
    from ih consider "?r = (triangle_fraction G inRay t, n)"
      | "fst ?r < triangle_fraction G inRay t" "Suc n \<le> snd ?r" "snd ?r - Suc n < length ts"
        "triangle_fraction G inRay (ts ! (snd ?r - Suc n)) = fst ?r"
      by blast
    then have "fst ?r < c \<and> n \<le> snd ?r \<and> snd ?r - n < length (t # ts)
        \<and> triangle_fraction G inRay ((t # ts) ! (snd ?r - n)) = fst ?r"
    proof cases
      case 1
      then show ?thesis using True by simp
    next
      case 2
      have "snd ?r - n = Suc (snd ?r - Suc n)" using 2(2) by simp
      then show ?thesis using 2 True by auto
    qed
    then show ?thesis unfolding r using le all True by auto
  next
    case False
    have r: "TestRay_loop G inRay n (t # ts) c idx = TestRay_loop G inRay (Suc n) ts c idx"
      using False by simp
    let ?r = "TestRay_loop G inRay (Suc n) ts c idx"
    note ih = Cons.IH [of "Suc n" c idx]
    from ih have le: "fst ?r \<le> c" by simp
    from ih have all: "\<forall>t \<in> set ts. fst ?r \<le> triangle_fraction G inRay t" by simp
    from ih consider "?r = (c, idx)"
      | "fst ?r < c" "Suc n \<le> snd ?r" "snd ?r - Suc n < length ts"
        "triangle_fraction G inRay (ts ! (snd ?r - Suc n)) = fst ?r"
      by blast
    then have "?r = (c, idx) \<or> fst ?r < c \<and> n \<le> snd ?r \<and> snd ?r - n < length (t # ts)
        \<and> triangle_fraction G inRay ((t # ts) ! (snd ?r - n)) = fst ?r"
    proof cases
      case 1
      then show ?thesis by simp
    next
      case 2
      have "snd ?r - n = Suc (snd ?r - Suc n)" using 2(2) by simp
      then show ?thesis using 2 by auto
    qed
    then show ?thesis unfolding r using le all False by auto
  qed
qed

subsection \<open>The children that a node visit keeps\<close>

lemma sorted_take_filter:
  fixes f :: "'f :: linorder"
  assumes "sorted (map fst xs)"
  shows "take (length (filter (\<lambda>x. fst x < f) xs)) xs = filter (\<lambda>x. fst x < f) xs"
  using assms
proof (induction xs)
  case Nil
  then show ?case by simp
next
  case (Cons x xs)
  show ?case
  proof (cases "fst x < f")
    case True
    then show ?thesis using Cons by simp
  next
    case False
    have "\<forall>y \<in> set xs. \<not> fst y < f"
      using Cons.prems False by auto
    then have "filter (\<lambda>x. fst x < f) xs = []" by (simp add: filter_empty_conv)
    then show ?thesis using False by simp
  qed
qed

lemma RayVisitNodes_spec:
  fixes G :: "('f :: {linorder, zero}, 'v, 'box) ray_geometry"
  assumes "length bounds \<le> 4"
  shows "distinct (snd (RayVisitNodes G inRay f d bounds base))"
    and "\<forall>i \<in> set (snd (RayVisitNodes G inRay f d bounds base)). i < length bounds"
    and "\<forall>j < length (snd (RayVisitNodes G inRay f d bounds base)).
           fst (RayVisitNodes G inRay f d bounds base) (base + j)
             = box_distance G inRay (bounds ! (snd (RayVisitNodes G inRay f d bounds base) ! j))"
    and "\<forall>i < length bounds. i \<notin> set (snd (RayVisitNodes G inRay f d bounds base))
           \<longrightarrow> \<not> box_distance G inRay (bounds ! i) < f"
    and "\<forall>i < base. fst (RayVisitNodes G inRay f d bounds base) i = d i"
proof -
  define distance where "distance = map (box_distance G inRay) bounds"
  define zs where "zs = zip distance [0..<length bounds]"
  define ss where "ss = sort_key fst zs"
  define k where "k = length (filter (\<lambda>d. d < f) distance)"
  define shifted where "shifted = drop (length (rev ss) - k) (rev ss)"
  have r: "RayVisitNodes G inRay f d bounds base =
      (\<lambda>i. if base \<le> i \<and> i < base + 4
               then (if i - base < k then fst (shifted ! (i - base)) else 0)
               else d i,
       map snd shifted)"
    unfolding RayVisitNodes_def Let_def distance_def zs_def ss_def k_def shifted_def
      box_distance_def by (rule refl)
  have fst_zs: "map fst zs = distance" and snd_zs: "map snd zs = [0..<length bounds]"
    by (simp_all add: zs_def distance_def)
  have "filter (\<lambda>x. fst x < f) ss = sort_key fst (filter (\<lambda>x. fst x < f) zs)"
    by (simp add: ss_def filter_sort)
  then have "length (filter (\<lambda>x. fst x < f) ss) = length (filter (\<lambda>x. fst x < f) zs)"
    by simp
  also have "\<dots> = length (filter (\<lambda>d. d < f) (map fst zs))"
    by (simp add: filter_map comp_def)
  finally have k: "k = length (filter (\<lambda>x. fst x < f) ss)"
    by (simp add: k_def fst_zs)
  have "sorted (map fst ss)" by (simp add: ss_def)
  then have "take k ss = filter (\<lambda>x. fst x < f) ss"
    unfolding k by (rule sorted_take_filter)
  then have shifted: "shifted = rev (filter (\<lambda>x. fst x < f) ss)"
    by (simp add: shifted_def rev_take [symmetric])
  have set_ss: "set ss = set zs" by (simp add: ss_def)
  have "mset (map snd ss) = mset (map snd zs)" by (simp add: ss_def)
  then have "distinct (map snd ss)"
    using snd_zs by (metis distinct_upt mset_eq_imp_distinct_iff)
  then have dist: "distinct (map snd shifted)"
    by (simp add: shifted distinct_map_filter rev_map [symmetric])
  have elem: "fst z = box_distance G inRay (bounds ! snd z) \<and> snd z < length bounds"
    if "z \<in> set zs" for z
    using that by (auto simp: zs_def distance_def set_zip)
  have in_shifted: "z \<in> set shifted \<longleftrightarrow> z \<in> set zs \<and> fst z < f" for z
    by (auto simp: shifted set_ss)
  have len: "length shifted = k" by (simp add: shifted k)
  have "length shifted \<le> length zs"
    unfolding shifted using length_filter_le [of _ ss] by (simp add: ss_def)
  then have k4: "k \<le> 4" using assms by (simp add: len zs_def distance_def)
  show "distinct (snd (RayVisitNodes G inRay f d bounds base))"
    by (simp add: r dist)
  show "\<forall>i \<in> set (snd (RayVisitNodes G inRay f d bounds base)). i < length bounds"
    using elem in_shifted by (auto simp: r)
  show "\<forall>j < length (snd (RayVisitNodes G inRay f d bounds base)).
           fst (RayVisitNodes G inRay f d bounds base) (base + j)
             = box_distance G inRay (bounds ! (snd (RayVisitNodes G inRay f d bounds base) ! j))"
  proof (intro allI impI)
    fix j assume "j < length (snd (RayVisitNodes G inRay f d bounds base))"
    then have j: "j < k" by (simp add: r len)
    then have "shifted ! j \<in> set zs" using in_shifted len by (metis nth_mem)
    then have "fst (shifted ! j) = box_distance G inRay (bounds ! snd (shifted ! j))"
      using elem by blast
    then show "fst (RayVisitNodes G inRay f d bounds base) (base + j)
             = box_distance G inRay (bounds ! (snd (RayVisitNodes G inRay f d bounds base) ! j))"
      using j k4 by (simp add: r len)
  qed
  show "\<forall>i < length bounds. i \<notin> set (snd (RayVisitNodes G inRay f d bounds base))
           \<longrightarrow> \<not> box_distance G inRay (bounds ! i) < f"
  proof (intro allI impI)
    fix i assume i: "i < length bounds" and out: "i \<notin> set (snd (RayVisitNodes G inRay f d bounds base))"
    have z: "(box_distance G inRay (bounds ! i), i) \<in> set zs"
      unfolding zs_def distance_def set_zip using i by (intro CollectI exI [of _ i]) simp
    have "(box_distance G inRay (bounds ! i), i) \<notin> set shifted"
      using out by (force simp: r)
    then show "\<not> box_distance G inRay (bounds ! i) < f"
      using z in_shifted by auto
  qed
  show "\<forall>i < base. fst (RayVisitNodes G inRay f d bounds base) i = d i"
    by (simp add: r)
qed

subsection \<open>The walk keeps the closest hit\<close>

definition stack_triangles :: "('box, 'v) node list \<Rightarrow> (nat \<times> nat \<times> 'v triangle) list" where
  "stack_triangles stack = concat (map node_triangles stack)"

text \<open>
  The distance stored for a node on the stack is not beyond the fraction of any triangle below
  that node. The stack has its top first, so the slot of a node is the length of what is
  under it.
\<close>

fun covered ::
  "('f :: {linorder, zero}, 'v, 'box) ray_geometry \<Rightarrow> 'v RayCast \<Rightarrow> (nat \<Rightarrow> 'f) \<Rightarrow> ('box, 'v) node list \<Rightarrow> bool" where
  "covered G inRay d [] = True"
| "covered G inRay d (n # rest) =
     (list_all (\<lambda>x. d (length rest) \<le> hit_fraction G inRay x) (node_triangles n)
      \<and> covered G inRay d rest)"

definition sub_shape_id :: "constants \<Rightarrow> nat \<Rightarrow> SubShapeID \<Rightarrow> nat \<times> nat \<times> 'v triangle \<Rightarrow> SubShapeID" where
  "sub_shape_id C block_id_bits creator x =
     PushID C (fst (snd x)) (NumTriangleBits C) (PushID C (fst x) block_id_bits creator)"

text \<open>
  What a part of the walk does to the hit, when \<open>T\<close> are the triangles that it had to look at:
  the fraction is not beyond any of them, and either the hit and the return value are as
  before, or the walk returns true with a smaller fraction, which is the fraction of one of
  the triangles, whose identifier is the one of the hit.
\<close>

definition improved ::
  "constants \<Rightarrow> ('f :: {linorder, zero}, 'v, 'box) ray_geometry \<Rightarrow> 'v RayCast \<Rightarrow> nat \<Rightarrow> SubShapeID
     \<Rightarrow> (nat \<times> nat \<times> 'v triangle) list \<Rightarrow> ('f, 'bid) NearestVisitor \<Rightarrow> ('f, 'bid) NearestVisitor \<Rightarrow> bool" where
  "improved C G inRay block_id_bits creator T s s' =
     (list_all (\<lambda>x. mFraction (mHit s') \<le> hit_fraction G inRay x) T
      \<and> (mHit s' = mHit s \<and> mReturnValue s' = mReturnValue s
         \<or> mReturnValue s' \<and> mFraction (mHit s') < mFraction (mHit s)
           \<and> mBodyID (mHit s') = mBodyID (mHit s)
           \<and> list_ex (\<lambda>x. hit_fraction G inRay x = mFraction (mHit s')
                  \<and> mSubShapeID2 (mHit s') = sub_shape_id C block_id_bits creator x) T))"

lemma improved_le:
  "improved C G inRay bits creator T s s' \<Longrightarrow> mFraction (mHit s') \<le> mFraction (mHit s)"
  by (auto simp: improved_def)

lemma improved_weaken:
  assumes "improved C G inRay bits creator T s s'" "set T \<subseteq> set T'"
    "\<forall>x \<in> set T'. x \<notin> set T \<longrightarrow> mFraction (mHit s') \<le> hit_fraction G inRay x"
  shows "improved C G inRay bits creator T' s s'"
  using assms unfolding improved_def list_all_iff list_ex_iff by blast

lemma improved_trans:
  assumes "improved C G inRay bits creator T1 s s1" "improved C G inRay bits creator T2 s1 s2"
    "set T = set T1 \<union> set T2"
  shows "improved C G inRay bits creator T s s2"
proof -
  have le: "mFraction (mHit s2) \<le> mFraction (mHit s1)"
    using assms(2) by (rule improved_le)
  have all: "list_all (\<lambda>x. mFraction (mHit s2) \<le> hit_fraction G inRay x) T"
    using assms le unfolding improved_def list_all_iff by (auto intro: order_trans)
  from assms(1) consider (same) "mHit s1 = mHit s" "mReturnValue s1 = mReturnValue s"
    | (less) "mReturnValue s1" "mFraction (mHit s1) < mFraction (mHit s)"
        "mBodyID (mHit s1) = mBodyID (mHit s)"
        "list_ex (\<lambda>x. hit_fraction G inRay x = mFraction (mHit s1)
                  \<and> mSubShapeID2 (mHit s1) = sub_shape_id C bits creator x) T1"
    unfolding improved_def by blast
  then show ?thesis
  proof cases
    case same
    from assms(2) show ?thesis
      unfolding improved_def same using all assms(3)
      unfolding list_ex_iff by auto
  next
    case less
    from assms(2) consider (same2) "mHit s2 = mHit s1" "mReturnValue s2 = mReturnValue s1"
      | (less2) "mReturnValue s2" "mFraction (mHit s2) < mFraction (mHit s1)"
          "mBodyID (mHit s2) = mBodyID (mHit s1)"
          "list_ex (\<lambda>x. hit_fraction G inRay x = mFraction (mHit s2)
                  \<and> mSubShapeID2 (mHit s2) = sub_shape_id C bits creator x) T2"
      unfolding improved_def by blast
    then show ?thesis
    proof cases
      case same2
      show ?thesis
        unfolding improved_def using all less same2 assms(3)
        unfolding list_ex_iff by auto
    next
      case less2
      have "mFraction (mHit s2) < mFraction (mHit s)"
        using less(2) less2(2) by (rule less_trans [rotated])
      then show ?thesis
        unfolding improved_def using all less less2 assms(3)
        unfolding list_ex_iff by auto
    qed
  qed
qed

lemma improved_start:
  assumes "improved C G inRay bits creator T s1 s'" "mHit s1 = mHit s" "mReturnValue s1 = mReturnValue s"
  shows "improved C G inRay bits creator T s s'"
  using assms unfolding improved_def by simp

lemma improved_same:
  assumes "mHit s' = mHit s" "mReturnValue s' = mReturnValue s"
    "\<forall>x \<in> set T. mFraction (mHit s) \<le> hit_fraction G inRay x"
  shows "improved C G inRay bits creator T s s'"
  using assms unfolding improved_def list_all_iff by simp

lemma VisitTriangles_improved:
  "improved C G inRay bits creator (node_triangles (Leaf block_id triangles)) s
     (CastRay_VisitTriangles C G inRay bits creator s triangles block_id)"
proof -
  let ?c = "mFraction (mHit s)"
  let ?r = "TestRay_loop G inRay 0 triangles ?c 0"
  note t = TestRay_loop_spec [of G inRay 0 triangles ?c 0]
  have nt: "set (node_triangles (Leaf block_id triangles))
      = {(block_id, i, triangles ! i) | i. i < length triangles}"
    by (auto simp: in_set_enumerate_eq image_iff)
  show ?thesis
  proof (cases "fst ?r < ?c")
    case False
    then have "?r = (?c, 0)" using t by blast
    then have same: "CastRay_VisitTriangles C G inRay bits creator s triangles block_id = s"
      by (simp add: CastRay_VisitTriangles_def TestRay_def)
    have "\<forall>x \<in> set (node_triangles (Leaf block_id triangles)). ?c \<le> hit_fraction G inRay x"
      unfolding nt using t \<open>?r = (?c, 0)\<close> by (auto simp: hit_fraction_def)
    then show ?thesis unfolding same by (intro improved_same) simp_all
  next
    case True
    then have idx: "snd ?r < length triangles"
      and fr: "triangle_fraction G inRay (triangles ! snd ?r) = fst ?r"
      using t by auto
    let ?x = "(block_id, snd ?r, triangles ! snd ?r)"
    have x: "?x \<in> set (node_triangles (Leaf block_id triangles))"
      unfolding nt using idx by blast
    have all: "\<forall>x \<in> set (node_triangles (Leaf block_id triangles)). fst ?r \<le> hit_fraction G inRay x"
      unfolding nt using t by (auto simp: hit_fraction_def)
    have "list_ex (\<lambda>x. hit_fraction G inRay x = fst ?r
             \<and> PushID C (snd ?r) (NumTriangleBits C) (PushID C block_id bits creator)
                 = sub_shape_id C bits creator x) (node_triangles (Leaf block_id triangles))"
      unfolding list_ex_iff
      by (rule bexI [OF _ x]) (simp add: hit_fraction_def fr sub_shape_id_def)
    then show ?thesis
      using True all
      unfolding improved_def list_all_iff
      by (simp add: CastRay_VisitTriangles_def TestRay_def Let_def)
  qed
qed

lemma covered_cong:
  "\<forall>i < length stack. d i = d' i \<Longrightarrow> covered G inRay d stack = covered G inRay d' stack"
  by (induction stack) simp_all

lemma covered_push:
  assumes "covered G inRay d rest"
    "\<forall>j < length xs. \<forall>x \<in> set (node_triangles (xs ! j)). d (length rest + j) \<le> hit_fraction G inRay x"
  shows "covered G inRay d (rev xs @ rest)"
  using assms(2)
proof (induction xs rule: rev_induct)
  case Nil
  then show ?case using assms(1) by simp
next
  case (snoc a xs)
  have "\<forall>j < length xs. \<forall>x \<in> set (node_triangles (xs ! j)). d (length rest + j) \<le> hit_fraction G inRay x"
  proof (intro allI impI)
    fix j assume j: "j < length xs"
    then have "(xs @ [a]) ! j = xs ! j" by (simp add: nth_append)
    then show "\<forall>x \<in> set (node_triangles (xs ! j)). d (length rest + j) \<le> hit_fraction G inRay x"
      using snoc.prems [rule_format, of j] j by simp
  qed
  then have "covered G inRay d (rev xs @ rest)" by (rule snoc.IH)
  moreover have "\<forall>x \<in> set (node_triangles a). d (length rest + length xs) \<le> hit_fraction G inRay x"
    using snoc.prems [rule_format, of "length xs"] by simp
  ultimately show ?case by (simp add: list_all_iff add.commute)
qed

lemma next_node_nearest:
  fixes s :: "('f :: {linorder, zero}, 'bid) NearestVisitor"
  assumes "V = CastRay_nearest_Visitor C G inRay bits creator"
    "covered G inRay (nearest_mDistanceStack s) stack"
  shows "covered G inRay (nearest_mDistanceStack s) (next_node V s stack)"
    and "set (next_node V s stack) \<subseteq> set stack"
    and "\<forall>x \<in> set (stack_triangles stack). x \<notin> set (stack_triangles (next_node V s stack))
           \<longrightarrow> mFraction (mHit s) \<le> hit_fraction G inRay x"
  using assms(2)
proof (induction stack)
  case Nil
  {
    case 1 show ?case by simp
  next
    case 2 show ?case by simp
  next
    case 3 show ?case by (simp add: stack_triangles_def)
  }
next
  case (Cons n rest)
  have sv: "ShouldVisitNode V s (length rest)
      = (nearest_mDistanceStack s (length rest) < mFraction (mHit s))"
    by (simp add: assms(1) CastRay_nearest_Visitor_def)
  {
    case 1
    then show ?case using Cons.IH(1) by simp
  next
    case 2
    then show ?case using Cons.IH(2) by auto
  next
    case 3
    then have c: "covered G inRay (nearest_mDistanceStack s) rest"
      and n: "\<forall>x \<in> set (node_triangles n). nearest_mDistanceStack s (length rest) \<le> hit_fraction G inRay x"
      by (simp_all add: list_all_iff)
    show ?case
    proof (cases "ShouldVisitNode V s (length rest)")
      case True
      then show ?thesis by simp
    next
      case False
      then have "mFraction (mHit s) \<le> nearest_mDistanceStack s (length rest)"
        by (simp add: sv)
      then have "\<forall>x \<in> set (node_triangles n). mFraction (mHit s) \<le> hit_fraction G inRay x"
        using n by (auto intro: order_trans)
      then show ?thesis
        using False Cons.IH(3) [OF c] by (auto simp: stack_triangles_def)
    qed
  }
qed

lemma covered_tl: "covered G inRay d stack \<Longrightarrow> covered G inRay d (tl stack)"
  by (cases stack) simp_all

lemma stack_triangles_mono: "set xs \<subseteq> set ys \<Longrightarrow> set (stack_triangles xs) \<subseteq> set (stack_triangles ys)"
  by (auto simp: stack_triangles_def)

lemma WalkTree_nearest:
  fixes s :: "('f :: {linorder, zero}, 'bid) NearestVisitor"
  assumes "V = CastRay_nearest_Visitor C G inRay bits creator"
    "list_all (conservative G inRay) stack"
    "covered G inRay (nearest_mDistanceStack s) (tl stack)"
    "\<forall>x \<in> set (stack_triangles stack). 0 \<le> hit_fraction G inRay x"
  shows "improved C G inRay bits creator (stack_triangles stack) s (snd (WalkTree V stack s))"
  using assms
proof (induction V stack s rule: WalkTree.induct)
  case (1 V s)
  show ?case by (simp add: stack_triangles_def improved_def)
next
  case (2 V block_id triangles rest s)
  note V = "2.prems"(1)
  let ?s1 = "CastRay_VisitTriangles C G inRay bits creator s triangles block_id"
  let ?T = "stack_triangles (Leaf block_id triangles # rest)"
  have vt: "VisitTriangles V s triangles block_id = ?s1"
    by (simp add: V CastRay_nearest_Visitor_def)
  have ab: "ShouldAbort V ?s1 = (mFraction (mHit ?s1) \<le> 0)"
    by (simp add: V CastRay_nearest_Visitor_def)
  have d1: "nearest_mDistanceStack ?s1 = nearest_mDistanceStack s"
    by (simp add: CastRay_VisitTriangles_def Let_def)
  have leaf: "improved C G inRay bits creator (node_triangles (Leaf block_id triangles)) s ?s1"
    by (rule VisitTriangles_improved)
  have T: "set ?T = set (node_triangles (Leaf block_id triangles)) \<union> set (stack_triangles rest)"
    by (simp add: stack_triangles_def)
  have nonneg: "\<forall>x \<in> set (stack_triangles rest). 0 \<le> hit_fraction G inRay x"
    using "2.prems"(4) T by blast
  have cov: "covered G inRay (nearest_mDistanceStack ?s1) rest"
    using "2.prems"(3) by (simp add: d1)
  show ?case
  proof (cases "mFraction (mHit ?s1) \<le> 0")
    case True
    have w: "snd (WalkTree V (Leaf block_id triangles # rest) s) = ?s1"
      using True by (simp add: vt ab Let_def)
    have "\<forall>x \<in> set ?T. x \<notin> set (node_triangles (Leaf block_id triangles))
        \<longrightarrow> mFraction (mHit ?s1) \<le> hit_fraction G inRay x"
      using True nonneg T by (auto intro: order_trans)
    then show ?thesis
      unfolding w using leaf T by (intro improved_weaken [OF leaf]) auto
  next
    case False
    let ?next = "next_node V ?s1 rest"
    have w: "snd (WalkTree V (Leaf block_id triangles # rest) s) = snd (WalkTree V ?next ?s1)"
      using False by (simp add: vt ab Let_def)
    note nn = next_node_nearest [OF V cov]
    have cons: "list_all (conservative G inRay) ?next"
      using "2.prems"(2) nn(2) unfolding list_all_iff by auto
    have nonneg': "\<forall>x \<in> set (stack_triangles ?next). 0 \<le> hit_fraction G inRay x"
      using nonneg stack_triangles_mono [OF nn(2)] by blast
    have na: "\<not> ShouldAbort V ?s1" using False by (simp add: ab)
    have ih: "improved C G inRay bits creator (stack_triangles ?next) ?s1 (snd (WalkTree V ?next ?s1))"
      using "2.IH" [OF vt [symmetric], unfolded vt, OF na V cons covered_tl [OF nn(1)] nonneg'] .
    have le: "mFraction (mHit (snd (WalkTree V ?next ?s1))) \<le> mFraction (mHit ?s1)"
      using ih by (rule improved_le)
    have "improved C G inRay bits creator (stack_triangles rest) ?s1 (snd (WalkTree V ?next ?s1))"
      using ih
    proof (rule improved_weaken)
      show "set (stack_triangles ?next) \<subseteq> set (stack_triangles rest)"
        by (rule stack_triangles_mono [OF nn(2)])
      show "\<forall>x \<in> set (stack_triangles rest). x \<notin> set (stack_triangles ?next)
          \<longrightarrow> mFraction (mHit (snd (WalkTree V ?next ?s1))) \<le> hit_fraction G inRay x"
        using nn(3) le by (auto intro: order_trans)
    qed
    with leaf show ?thesis
      unfolding w by (rule improved_trans) (rule T)
  qed
next
  case (3 V children rest s)
  note V = "3.prems"(1)
  let ?bounds = "map fst children"
  let ?r = "RayVisitNodes G inRay (mFraction (mHit s)) (nearest_mDistanceStack s) ?bounds (length rest)"
  let ?s1 = "s\<lparr>nearest_mDistanceStack := fst ?r\<rparr>"
  let ?sel = "snd ?r"
  let ?pushed = "push_children children ?sel rest"
  let ?T = "stack_triangles (Inner children # rest)"
  have vn: "VisitNodes V s ?bounds (length rest) = (?s1, ?sel)"
    by (simp add: V CastRay_nearest_Visitor_def Let_def)
  have ab: "ShouldAbort V ?s1 = (mFraction (mHit s) \<le> 0)"
    by (simp add: V CastRay_nearest_Visitor_def)
  have four: "length ?bounds \<le> 4" using "3.prems"(2) by simp
  note rv = RayVisitNodes_spec [OF four, where G = G and inRay = inRay and f = "mFraction (mHit s)"
      and d = "nearest_mDistanceStack s" and base = "length rest"]
  have child: "conservative G inRay (snd c)
      \<and> (\<forall>x \<in> set (node_triangles (snd c)). box_distance G inRay (fst c) \<le> hit_fraction G inRay x)"
    if "c \<in> set children" for c
    using "3.prems"(2) that by (auto simp: list_all_iff)
  have sel_lt: "\<forall>i \<in> set ?sel. i < length children" using rv(2) by simp
  have lanes: "lanes (length children) ?sel = ?sel"
  proof -
    have "filter (\<lambda>i. i < length children) ?sel = ?sel"
      using sel_lt by (simp only: filter_id_conv)
    then show ?thesis
      using rv(1) by (simp only: lanes_def) (simp add: distinct_remdups_id)
  qed
  have pushed: "?pushed = rev (map (\<lambda>i. snd (children ! i)) ?sel) @ rest"
    by (simp add: push_children_def lanes)
  have set_pushed: "set ?pushed = (\<lambda>i. snd (children ! i)) ` set ?sel \<union> set rest"
    unfolding pushed by simp
  have sub: "set (stack_triangles ?pushed) \<subseteq> set ?T"
  proof
    fix x assume "x \<in> set (stack_triangles ?pushed)"
    then obtain n where n: "n \<in> set ?pushed" "x \<in> set (node_triangles n)"
      by (auto simp: stack_triangles_def)
    from n(1) consider i where "i \<in> set ?sel" "n = snd (children ! i)" | "n \<in> set rest"
      unfolding set_pushed by blast
    then show "x \<in> set ?T"
    proof cases
      case 1
      then have "children ! i \<in> set children" using sel_lt by simp
      then show ?thesis using n(2) 1(2) by (auto simp: stack_triangles_def)
    next
      case 2
      then show ?thesis using n(2) by (auto simp: stack_triangles_def)
    qed
  qed
  have dropped: "mFraction (mHit s) \<le> hit_fraction G inRay x"
    if x: "x \<in> set ?T" "x \<notin> set (stack_triangles ?pushed)" for x
  proof -
    from x(1) consider c where "c \<in> set children" "x \<in> set (node_triangles (snd c))"
      | "x \<in> set (stack_triangles rest)"
      by (auto simp: stack_triangles_def)
    then show ?thesis
    proof cases
      case 1
      then obtain i where i: "i < length children" "c = children ! i"
        by (metis in_set_conv_nth)
      have "i \<notin> set ?sel"
      proof
        assume "i \<in> set ?sel"
        then have "snd c \<in> set ?pushed" unfolding set_pushed i(2) by blast
        then show False using 1(2) x(2) by (auto simp: stack_triangles_def)
      qed
      then have "\<not> box_distance G inRay (?bounds ! i) < mFraction (mHit s)"
        using rv(4) i(1) by simp
      then have "mFraction (mHit s) \<le> box_distance G inRay (fst c)"
        using i by simp
      also have "\<dots> \<le> hit_fraction G inRay x"
        using child [OF 1(1)] 1(2) by blast
      finally show ?thesis .
    next
      case 2
      then have "x \<in> set (stack_triangles ?pushed)"
        unfolding pushed by (auto simp: stack_triangles_def)
      then show ?thesis using x(2) by simp
    qed
  qed
  show ?case
  proof (cases "mFraction (mHit s) \<le> 0")
    case True
    have w: "snd (WalkTree V (Inner children # rest) s) = ?s1"
      using True by (simp add: vn ab Let_def)
    have "\<forall>x \<in> set ?T. mFraction (mHit s) \<le> hit_fraction G inRay x"
      using True "3.prems"(4) by (auto intro: order_trans)
    then show ?thesis
      unfolding w by (intro improved_same) simp_all
  next
    case False
    let ?next = "next_node V ?s1 ?pushed"
    have w: "snd (WalkTree V (Inner children # rest) s) = snd (WalkTree V ?next ?s1)"
      using False by (simp add: vn ab Let_def)
    have "covered G inRay (nearest_mDistanceStack s) rest" using "3.prems"(3) by simp
    then have cov_rest: "covered G inRay (fst ?r) rest"
      using covered_cong [of rest "fst ?r" "nearest_mDistanceStack s" G inRay] rv(5) by simp
    have "covered G inRay (fst ?r) (rev (map (\<lambda>i. snd (children ! i)) ?sel) @ rest)"
      using cov_rest
    proof (rule covered_push, intro allI impI ballI)
      fix j x
      assume j: "j < length (map (\<lambda>i. snd (children ! i)) ?sel)"
        and x: "x \<in> set (node_triangles (map (\<lambda>i. snd (children ! i)) ?sel ! j))"
      from j have j': "j < length ?sel" by simp
      then have lt: "?sel ! j < length children" using sel_lt by (metis nth_mem)
      have "fst ?r (length rest + j) = box_distance G inRay (?bounds ! (?sel ! j))"
        using rv(3) j' by blast
      also have "\<dots> = box_distance G inRay (fst (children ! (?sel ! j)))"
        using lt by simp
      also have "\<dots> \<le> hit_fraction G inRay x"
        using child [of "children ! (?sel ! j)"] lt x j' by simp
      finally show "fst ?r (length rest + j) \<le> hit_fraction G inRay x" .
    qed
    then have cov: "covered G inRay (nearest_mDistanceStack ?s1) ?pushed"
      by (simp add: pushed)
    note nn = next_node_nearest [OF V cov]
    have "conservative G inRay (snd (children ! i))" if "i \<in> set ?sel" for i
      using child [of "children ! i"] sel_lt that by simp
    moreover have "\<forall>n \<in> set rest. conservative G inRay n"
      using "3.prems"(2) by (simp add: list_all_iff)
    ultimately have cons_pushed: "list_all (conservative G inRay) ?pushed"
      unfolding list_all_iff set_pushed by blast
    have cons: "list_all (conservative G inRay) ?next"
      using cons_pushed nn(2) unfolding list_all_iff by auto
    have nonneg': "\<forall>x \<in> set (stack_triangles ?next). 0 \<le> hit_fraction G inRay x"
      using "3.prems"(4) sub stack_triangles_mono [OF nn(2)] by blast
    have na: "\<not> ShouldAbort V ?s1" using False by (simp add: ab)
    have ih: "improved C G inRay bits creator (stack_triangles ?next) ?s1 (snd (WalkTree V ?next ?s1))"
      using "3.IH" [OF refl refl, unfolded vn fst_conv snd_conv, OF na V cons covered_tl [OF nn(1)] nonneg'] .
    have le: "mFraction (mHit (snd (WalkTree V ?next ?s1))) \<le> mFraction (mHit ?s1)"
      using ih by (rule improved_le)
    have "improved C G inRay bits creator ?T ?s1 (snd (WalkTree V ?next ?s1))"
      using ih
    proof (rule improved_weaken)
      show "set (stack_triangles ?next) \<subseteq> set ?T"
        using stack_triangles_mono [OF nn(2)] sub by blast
      show "\<forall>x \<in> set ?T. x \<notin> set (stack_triangles ?next)
          \<longrightarrow> mFraction (mHit (snd (WalkTree V ?next ?s1))) \<le> hit_fraction G inRay x"
      proof (intro ballI impI)
        fix x assume x: "x \<in> set ?T" "x \<notin> set (stack_triangles ?next)"
        have "mFraction (mHit ?s1) \<le> hit_fraction G inRay x"
        proof (cases "x \<in> set (stack_triangles ?pushed)")
          case True
          then show ?thesis using nn(3) x(2) by blast
        next
          case False
          then show ?thesis using dropped [OF x(1)] by simp
        qed
        then show "mFraction (mHit (snd (WalkTree V ?next ?s1))) \<le> hit_fraction G inRay x"
          using le by (rule order_trans [rotated])
      qed
    qed
    then show ?thesis
      unfolding w by (rule improved_start) simp_all
  qed
qed

text \<open>
  A tree for \<open>example_ray_geometry\<close>, where the distance of a box is the box and the fraction
  of a triangle is its first vertex: every box is at most the first vertices below it.
\<close>

definition example_bounded_tree :: "(int, int) node" where
  "example_bounded_tree =
     Inner [(2, Leaf 0 [((5, 6, 8), 0), ((2, 5, 0), 0), ((9, 0, 0), 0)]),
            (1, Inner [(4, Leaf 1 [((4, 0, 0), 0)]),
                       (1, Leaf 2 [((6, 0, 0), 0), ((1, 0, 0), 0)])]),
            (7, Leaf 3 [((8, 0, 0), 0)])]"

text \<open>
  C4: on a tree whose nodes have at most four children and whose bounding boxes the ray does
  not enter later than it hits a triangle below them, with fractions that are not negative,
  the nearest-hit \<open>CastRay\<close> returns true exactly when some triangle of the tree has a
  fraction below the fraction that the hit came in with. When it returns true, the fraction
  of the hit is the least fraction of all triangles, it is the fraction of a triangle whose
  block id and index, pushed on the creator, make the sub-shape id of the hit, and the body
  of the hit is as before. When it returns false, the hit is as it came in.
\<close>

theorem CastRay_nearest_hit:
  fixes ioHit :: "('f :: {linorder, zero}, 'bid) RayCastResult" and root :: "('box, 'v) node"
  assumes "conservative G inRay root"
    and "list_all (\<lambda>x. 0 \<le> hit_fraction G inRay x) (node_triangles root)"
  shows "fst (CastRay C G root block_id_bits inRay inSubShapeIDCreator ioHit)
           = list_ex (\<lambda>x. hit_fraction G inRay x < mFraction ioHit) (node_triangles root)
       \<and> (fst (CastRay C G root block_id_bits inRay inSubShapeIDCreator ioHit) \<longrightarrow>
            list_all (\<lambda>x. mFraction (snd (CastRay C G root block_id_bits inRay inSubShapeIDCreator ioHit))
                           \<le> hit_fraction G inRay x) (node_triangles root)
            \<and> list_ex (\<lambda>x. hit_fraction G inRay x
                             = mFraction (snd (CastRay C G root block_id_bits inRay inSubShapeIDCreator ioHit))
                           \<and> mSubShapeID2 (snd (CastRay C G root block_id_bits inRay inSubShapeIDCreator ioHit))
                             = PushID C (fst (snd x)) (NumTriangleBits C)
                                 (PushID C (fst x) block_id_bits inSubShapeIDCreator))
                 (node_triangles root)
            \<and> mBodyID (snd (CastRay C G root block_id_bits inRay inSubShapeIDCreator ioHit))
                = mBodyID ioHit)
       \<and> (\<not> fst (CastRay C G root block_id_bits inRay inSubShapeIDCreator ioHit) \<longrightarrow>
            snd (CastRay C G root block_id_bits inRay inSubShapeIDCreator ioHit) = ioHit)"
proof -
  let ?s = "\<lparr>mHit = ioHit, mReturnValue = False, nearest_mDistanceStack = (\<lambda>i. 0)\<rparr>"
  let ?V = "CastRay_nearest_Visitor C G inRay block_id_bits inSubShapeIDCreator
              :: (('f, 'bid) NearestVisitor, 'box, 'v) visitor"
  let ?s' = "snd (WalkTree ?V [root] ?s)"
  have T: "stack_triangles [root] = node_triangles root" by (simp add: stack_triangles_def)
  have "improved C G inRay block_id_bits inSubShapeIDCreator (stack_triangles [root]) ?s ?s'"
    using assms by (intro WalkTree_nearest) (simp_all add: T list_all_iff)
  then have all: "\<forall>x \<in> set (node_triangles root). mFraction (mHit ?s') \<le> hit_fraction G inRay x"
    and alt: "mHit ?s' = ioHit \<and> \<not> mReturnValue ?s'
      \<or> mReturnValue ?s' \<and> mFraction (mHit ?s') < mFraction ioHit
        \<and> mBodyID (mHit ?s') = mBodyID ioHit
        \<and> (\<exists>x \<in> set (node_triangles root). hit_fraction G inRay x = mFraction (mHit ?s')
              \<and> mSubShapeID2 (mHit ?s')
                = PushID C (fst (snd x)) (NumTriangleBits C)
                    (PushID C (fst x) block_id_bits inSubShapeIDCreator))"
    unfolding improved_def T list_all_iff list_ex_iff sub_shape_id_def by simp_all
  have r: "CastRay C G root block_id_bits inRay inSubShapeIDCreator ioHit = (mReturnValue ?s', mHit ?s')"
    by (simp add: CastRay_def Let_def)
  from alt show ?thesis
  proof
    assume same: "mHit ?s' = ioHit \<and> \<not> mReturnValue ?s'"
    then have "\<not> (\<exists>x \<in> set (node_triangles root). hit_fraction G inRay x < mFraction ioHit)"
      using all by (auto simp: not_less)
    then show ?thesis
      unfolding r list_ex_iff list_all_iff using same by simp
  next
    assume less: "mReturnValue ?s' \<and> mFraction (mHit ?s') < mFraction ioHit
        \<and> mBodyID (mHit ?s') = mBodyID ioHit
        \<and> (\<exists>x \<in> set (node_triangles root). hit_fraction G inRay x = mFraction (mHit ?s')
              \<and> mSubShapeID2 (mHit ?s')
                = PushID C (fst (snd x)) (NumTriangleBits C)
                    (PushID C (fst x) block_id_bits inSubShapeIDCreator))"
    then obtain x where "x \<in> set (node_triangles root)"
      "hit_fraction G inRay x = mFraction (mHit ?s')" by blast
    then have "\<exists>x \<in> set (node_triangles root). hit_fraction G inRay x < mFraction ioHit"
      using less by (intro bexI [of _ x]) simp_all
    then show ?thesis
      unfolding r list_ex_iff list_all_iff using less all by simp
  qed
qed

theorem CastRay_nearest_hit_witness:
  "fst (CastRay example_constants example_ray_geometry example_bounded_tree 2
          \<lparr>mOrigin = 0, mDirection = 1\<rparr> []
          \<lparr>mBodyID = 7 :: nat, mFraction = 10, mSubShapeID2 = []\<rparr>)
   \<and> mFraction (snd (CastRay example_constants example_ray_geometry example_bounded_tree 2
          \<lparr>mOrigin = 0, mDirection = 1\<rparr> []
          \<lparr>mBodyID = 7 :: nat, mFraction = 10, mSubShapeID2 = []\<rparr>)) = 1
   \<and> mSubShapeID2 (snd (CastRay example_constants example_ray_geometry example_bounded_tree 2
          \<lparr>mOrigin = 0, mDirection = 1\<rparr> []
          \<lparr>mBodyID = 7 :: nat, mFraction = 10, mSubShapeID2 = []\<rparr>))
       = [False, True, True, False, False]
   \<and> CastRay example_constants example_ray_geometry example_bounded_tree 2
          \<lparr>mOrigin = 0, mDirection = 1\<rparr> []
          \<lparr>mBodyID = 7 :: nat, mFraction = 1, mSubShapeID2 = []\<rparr>
       = (False, \<lparr>mBodyID = 7, mFraction = 1, mSubShapeID2 = []\<rparr>)"
proof -
  let ?ray = "\<lparr>mOrigin = 0, mDirection = 1\<rparr> :: int RayCast"
  have bounds: "conservative example_ray_geometry ?ray example_bounded_tree"
    by code_simp
  have fractions: "list_all (\<lambda>x. 0 \<le> hit_fraction example_ray_geometry ?ray x)
      (node_triangles example_bounded_tree)"
    by code_simp
  have tris: "node_triangles example_bounded_tree
      = [(0, 0, ((5, 6, 8), 0)), (0, 1, ((2, 5, 0), 0)), (0, 2, ((9, 0, 0), 0)),
         (1, 0, ((4, 0, 0), 0)), (2, 0, ((6, 0, 0), 0)), (2, 1, ((1, 0, 0), 0)),
         (3, 0, ((8, 0, 0), 0))]"
    by code_simp
  have f: "hit_fraction example_ray_geometry ?ray (b, i, ((v0, v1, v2), flags)) = v0"
    for b i v0 v1 v2 flags
    by (simp add: hit_fraction_def triangle_fraction_def example_ray_geometry_def)
  have id: "PushID example_constants (Suc 0) (NumTriangleBits example_constants)
      (PushID example_constants 2 2 []) = [False, True, True, False, False]"
    by code_simp
  let ?near = "CastRay example_constants example_ray_geometry example_bounded_tree 2 ?ray []
          \<lparr>mBodyID = 7 :: nat, mFraction = 10, mSubShapeID2 = []\<rparr>"
  let ?far = "CastRay example_constants example_ray_geometry example_bounded_tree 2 ?ray []
          \<lparr>mBodyID = 7 :: nat, mFraction = 1, mSubShapeID2 = []\<rparr>"
  have "fst ?near \<and> mFraction (snd ?near) = 1 \<and> mSubShapeID2 (snd ?near) = [False, True, True, False, False]"
    using CastRay_nearest_hit [OF bounds fractions, of example_constants 2 "[]"
        "\<lparr>mBodyID = 7 :: nat, mFraction = 10, mSubShapeID2 = []\<rparr>"]
    unfolding tris by (auto simp: f id)
  moreover have "?far = (False, \<lparr>mBodyID = 7, mFraction = 1, mSubShapeID2 = []\<rparr>)"
    using CastRay_nearest_hit [OF bounds fractions, of example_constants 2 "[]"
        "\<lparr>mBodyID = 7 :: nat, mFraction = 1, mSubShapeID2 = []\<rparr>"]
    unfolding tris by (cases ?far) (simp add: f)
  ultimately show ?thesis by blast
qed


section \<open>What the ray cast with a collector reports\<close>

text \<open>
  The calls of \<open>AddHit\<close> that a ray cast makes are observed by running it on the collector paired
  with the list of the hits added so far: \<open>AddHit\<close> adds the hit to the collector and to the
  end of the list, everything else looks at the collector only.
\<close>

definition logging ::
  "('c, 'f, 'bid) collector_class \<Rightarrow> ('c \<times> ('f, 'bid) RayCastResult list, 'f, 'bid) collector_class" where
  "logging K =
     \<lparr>AddHit = (\<lambda>cl inResult. (AddHit K (fst cl) inResult, snd cl @ [inResult])),
      GetEarlyOutFraction = (\<lambda>cl. GetEarlyOutFraction K (fst cl)),
      ShouldEarlyOut = (\<lambda>cl. ShouldEarlyOut K (fst cl)),
      sGetBodyID = (\<lambda>cl. sGetBodyID K (fst cl))\<rparr>"

definition add_hits ::
  "('c, 'f, 'bid) collector_class \<Rightarrow> ('f, 'bid) RayCastResult list \<Rightarrow> 'c \<Rightarrow> 'c" where
  "add_hits K hits c = fold (\<lambda>inResult c. AddHit K c inResult) hits c"

text \<open>
  A list of hits as the visitor reports them, one after the other, to a collector that starts
  as \<open>c\<close>: each hit has a fraction below the early out fraction that the collector has at that
  moment, carries the body of the collector, and satisfies \<open>P\<close>; then it is added.
\<close>

fun reported ::
  "('c, 'f :: {linorder, zero}, 'bid) collector_class \<Rightarrow> (('f, 'bid) RayCastResult \<Rightarrow> bool) \<Rightarrow> 'c
     \<Rightarrow> ('f, 'bid) RayCastResult list \<Rightarrow> bool" where
  "reported K P c [] = True"
| "reported K P c (h # hs) =
     (mFraction h < GetEarlyOutFraction K c \<and> mBodyID h = sGetBodyID K c \<and> P h
      \<and> reported K P (AddHit K c h) hs)"

text \<open>The hit is the one of a triangle of \<open>T\<close> that is not skipped.\<close>

definition hit_of ::
  "constants \<Rightarrow> ('f :: {linorder, zero}, 'v, 'box) ray_geometry \<Rightarrow> ('f, 'v, 'box) ray_query
     \<Rightarrow> (nat \<times> nat \<times> 'v triangle) list \<Rightarrow> ('f, 'bid) RayCastResult \<Rightarrow> bool" where
  "hit_of C G Q T h =
     list_ex (\<lambda>x. \<not> skipped G (mRay Q) (mBackFaceMode Q) (snd (snd x))
                 \<and> mFraction h = hit_fraction G (mRay Q) x
                 \<and> mSubShapeID2 h = sub_shape_id C (mTriangleBlockIDBits Q) (mSubShapeIDCreator Q) x) T"

text \<open>
  Every triangle of \<open>T\<close> that is not skipped and whose fraction is below \<open>bound\<close> has its hit
  among \<open>hits\<close>.
\<close>

definition all_reported ::
  "constants \<Rightarrow> ('f :: {linorder, zero}, 'v, 'box) ray_geometry \<Rightarrow> ('f, 'v, 'box) ray_query
     \<Rightarrow> (nat \<times> nat \<times> 'v triangle) list \<Rightarrow> 'f \<Rightarrow> ('f, 'bid) RayCastResult list \<Rightarrow> bool" where
  "all_reported C G Q T bound hits =
     list_all (\<lambda>x. \<not> skipped G (mRay Q) (mBackFaceMode Q) (snd (snd x))
                    \<and> hit_fraction G (mRay Q) x < bound
                  \<longrightarrow> list_ex (\<lambda>h. mFraction h = hit_fraction G (mRay Q) x
                         \<and> mSubShapeID2 h = sub_shape_id C (mTriangleBlockIDBits Q) (mSubShapeIDCreator Q) x)
                        hits) T"

text \<open>
  What the collectors of the engine do with their early out fraction: adding a hit whose
  fraction is below it does not raise it.
\<close>

definition early_out_decreasing :: "('c, 'f :: {linorder, zero}, 'bid) collector_class \<Rightarrow> bool" where
  "early_out_decreasing K =
     (\<forall>c h. mFraction h < GetEarlyOutFraction K c
        \<longrightarrow> GetEarlyOutFraction K (AddHit K c h) \<le> GetEarlyOutFraction K c)"

lemma add_hits_append: "add_hits K (as @ bs) c = add_hits K bs (add_hits K as c)"
  by (simp add: add_hits_def)

lemma reported_append:
  "reported K P c (as @ bs) \<longleftrightarrow> reported K P c as \<and> reported K P (add_hits K as c) bs"
  by (induction as arbitrary: c) (auto simp: add_hits_def)

lemma reported_mono:
  "reported K P c hs \<Longrightarrow> (\<And>h. P h \<Longrightarrow> P' h) \<Longrightarrow> reported K P' c hs"
  by (induction hs arbitrary: c) auto

lemma early_out_add_hits:
  "early_out_decreasing K \<Longrightarrow> reported K P c hs
     \<Longrightarrow> GetEarlyOutFraction K (add_hits K hs c) \<le> GetEarlyOutFraction K c"
proof (induction hs arbitrary: c)
  case Nil
  then show ?case by (simp add: add_hits_def)
next
  case (Cons h hs)
  from Cons.prems(2) have h: "mFraction h < GetEarlyOutFraction K c"
    and r: "reported K P (AddHit K c h) hs" by simp_all
  have "GetEarlyOutFraction K (add_hits K hs (AddHit K c h)) \<le> GetEarlyOutFraction K (AddHit K c h)"
    using Cons.IH [OF Cons.prems(1) r] .
  also have "\<dots> \<le> GetEarlyOutFraction K c"
    using Cons.prems(1) h by (simp add: early_out_decreasing_def)
  finally show ?case by (simp add: add_hits_def)
qed

lemma hit_of_mono: "set T \<subseteq> set T' \<Longrightarrow> hit_of C G Q T h \<Longrightarrow> hit_of C G Q T' h"
  unfolding hit_of_def list_ex_iff by blast

lemma all_reported_iff:
  "all_reported C G Q T bound hits \<longleftrightarrow>
     (\<forall>x \<in> set T. \<not> skipped G (mRay Q) (mBackFaceMode Q) (snd (snd x))
                    \<and> hit_fraction G (mRay Q) x < bound
        \<longrightarrow> (\<exists>h \<in> set hits. mFraction h = hit_fraction G (mRay Q) x
              \<and> mSubShapeID2 h = sub_shape_id C (mTriangleBlockIDBits Q) (mSubShapeIDCreator Q) x))"
  unfolding all_reported_def list_all_iff list_ex_iff by (rule refl)

subsection \<open>One leaf\<close>

lemma report_triangle_logging:
  "report_triangle C G (logging K) Q block_id it cl =
     (if \<not> skipped G (mRay Q) (mBackFaceMode Q) (snd it)
         \<and> triangle_fraction G (mRay Q) (snd it) < GetEarlyOutFraction K (fst cl)
      then (AddHit K (fst cl)
              \<lparr>mBodyID = sGetBodyID K (fst cl), mFraction = triangle_fraction G (mRay Q) (snd it),
               mSubShapeID2 = triangle_id C Q block_id (fst it)\<rparr>,
            snd cl @ [\<lparr>mBodyID = sGetBodyID K (fst cl), mFraction = triangle_fraction G (mRay Q) (snd it),
               mSubShapeID2 = triangle_id C Q block_id (fst it)\<rparr>])
      else cl)"
  by (simp add: report_triangle_def logging_def)

lemma fst_report_triangle_logging:
  "fst (report_triangle C G (logging K) Q block_id it cl) = report_triangle C G K Q block_id it (fst cl)"
  by (simp add: report_triangle_logging) (simp add: report_triangle_def)

lemma fst_report_leaf_logging:
  "fst (report_leaf C G (logging K) Q block_id triangles cl) = report_leaf C G K Q block_id triangles (fst cl)"
proof -
  have "fst (fold (report_triangle C G (logging K) Q block_id) its cl)
      = fold (report_triangle C G K Q block_id) its (fst cl)" for its
    by (induction its arbitrary: cl) (simp_all add: fst_report_triangle_logging)
  then show ?thesis by (simp add: report_leaf_def)
qed

lemma fold_report_triangle_logging:
  fixes K :: "('c, 'f :: {linorder, zero}, 'bid) collector_class"
  assumes dec: "early_out_decreasing K"
  shows "\<exists>new. fold (report_triangle C G (logging K) Q block_id) its (c, log)
             = (add_hits K new c, log @ new)
      \<and> reported K (hit_of C G Q (map (\<lambda>it. (block_id, fst it, snd it)) its)) c new
      \<and> all_reported C G Q (map (\<lambda>it. (block_id, fst it, snd it)) its)
          (GetEarlyOutFraction K (add_hits K new c)) new"
proof (induction its arbitrary: c log)
  case Nil
  show ?case
    by (intro exI [of _ "[]"]) (simp add: add_hits_def all_reported_def)
next
  case (Cons it its)
  let ?T = "map (\<lambda>it. (block_id, fst it, snd it)) its"
  let ?x = "(block_id, fst it, snd it)"
  let ?h = "\<lparr>mBodyID = sGetBodyID K c, mFraction = triangle_fraction G (mRay Q) (snd it),
             mSubShapeID2 = triangle_id C Q block_id (fst it)\<rparr>"
  have id: "sub_shape_id C (mTriangleBlockIDBits Q) (mSubShapeIDCreator Q) (block_id, it)
      = triangle_id C Q block_id (fst it)"
    by (simp add: sub_shape_id_def triangle_id_def)
  have fr: "hit_fraction G (mRay Q) (block_id, it) = triangle_fraction G (mRay Q) (snd it)"
    by (simp add: hit_fraction_def)
  show ?case
  proof (cases "\<not> skipped G (mRay Q) (mBackFaceMode Q) (snd it)
         \<and> triangle_fraction G (mRay Q) (snd it) < GetEarlyOutFraction K c")
    case True
    from Cons.IH [of "AddHit K c ?h" "log @ [?h]"] obtain new where
      f: "fold (report_triangle C G (logging K) Q block_id) its (AddHit K c ?h, log @ [?h])
            = (add_hits K new (AddHit K c ?h), (log @ [?h]) @ new)"
      and r: "reported K (hit_of C G Q ?T) (AddHit K c ?h) new"
      and a: "all_reported C G Q ?T (GetEarlyOutFraction K (add_hits K new (AddHit K c ?h))) new"
      by blast
    have step: "report_triangle C G (logging K) Q block_id it (c, log) = (AddHit K c ?h, log @ [?h])"
      using True by (simp add: report_triangle_logging)
    have h: "hit_of C G Q (?x # ?T) ?h"
      using True unfolding hit_of_def by (simp add: id fr)
    have r': "reported K (hit_of C G Q (?x # ?T)) (AddHit K c ?h) new"
      using r by (rule reported_mono) (auto intro: hit_of_mono [rotated])
    have a': "all_reported C G Q (?x # ?T) (GetEarlyOutFraction K (add_hits K new (AddHit K c ?h))) (?h # new)"
      using a unfolding all_reported_iff by (auto simp: id fr)
    show ?thesis
      using True f r' h a'
      by (intro exI [of _ "?h # new"]) (simp add: step add_hits_def)
  next
    case False
    from Cons.IH [of c log] obtain new where
      f: "fold (report_triangle C G (logging K) Q block_id) its (c, log) = (add_hits K new c, log @ new)"
      and r: "reported K (hit_of C G Q ?T) c new"
      and a: "all_reported C G Q ?T (GetEarlyOutFraction K (add_hits K new c)) new"
      by blast
    have step: "report_triangle C G (logging K) Q block_id it (c, log) = (c, log)"
      using False by (simp add: report_triangle_logging)
    have r': "reported K (hit_of C G Q (?x # ?T)) c new"
      using r by (rule reported_mono) (auto intro: hit_of_mono [rotated])
    have le: "GetEarlyOutFraction K (add_hits K new c) \<le> GetEarlyOutFraction K c"
      using dec r by (rule early_out_add_hits)
    have "\<not> (\<not> skipped G (mRay Q) (mBackFaceMode Q) (snd (snd ?x))
         \<and> hit_fraction G (mRay Q) ?x < GetEarlyOutFraction K (add_hits K new c))"
      using False le by (auto simp: fr)
    then have a': "all_reported C G Q (?x # ?T) (GetEarlyOutFraction K (add_hits K new c)) new"
      using a unfolding all_reported_iff by auto
    show ?thesis
      using f r' a' by (intro exI [of _ new]) (simp add: step)
  qed
qed

lemma report_leaf_logging:
  fixes K :: "('c, 'f :: {linorder, zero}, 'bid) collector_class"
  assumes "early_out_decreasing K"
  shows "\<exists>new. report_leaf C G (logging K) Q block_id triangles (c, log)
             = (add_hits K new c, log @ new)
      \<and> reported K (hit_of C G Q (node_triangles (Leaf block_id triangles))) c new
      \<and> all_reported C G Q (node_triangles (Leaf block_id triangles))
          (GetEarlyOutFraction K (add_hits K new c)) new"
  using fold_report_triangle_logging [OF assms, of C G Q block_id "enumerate 0 triangles" c log]
  by (simp add: report_leaf_def)

subsection \<open>The whole walk\<close>

lemma next_node_collector:
  fixes s :: "('c, 'f :: {linorder, zero}) CastRayVisitor"
  assumes "V = CastRayVisitor C G K Q"
    "covered G (mRay Q) (mDistanceStack s) stack"
  shows "covered G (mRay Q) (mDistanceStack s) (next_node V s stack)"
    and "set (next_node V s stack) \<subseteq> set stack"
    and "\<forall>x \<in> set (stack_triangles stack). x \<notin> set (stack_triangles (next_node V s stack))
           \<longrightarrow> GetEarlyOutFraction K (mCollector s) \<le> hit_fraction G (mRay Q) x"
  using assms(2)
proof (induction stack)
  case Nil
  {
    case 1 show ?case by simp
  next
    case 2 show ?case by simp
  next
    case 3 show ?case by (simp add: stack_triangles_def)
  }
next
  case (Cons n rest)
  have sv: "ShouldVisitNode V s (length rest)
      = (mDistanceStack s (length rest) < GetEarlyOutFraction K (mCollector s))"
    by (simp add: assms(1) CastRayVisitor_def)
  {
    case 1
    then show ?case using Cons.IH(1) by simp
  next
    case 2
    then show ?case using Cons.IH(2) by auto
  next
    case 3
    then have c: "covered G (mRay Q) (mDistanceStack s) rest"
      and n: "\<forall>x \<in> set (node_triangles n). mDistanceStack s (length rest) \<le> hit_fraction G (mRay Q) x"
      by (simp_all add: list_all_iff)
    show ?case
    proof (cases "ShouldVisitNode V s (length rest)")
      case True
      then show ?thesis by simp
    next
      case False
      then have "GetEarlyOutFraction K (mCollector s) \<le> mDistanceStack s (length rest)"
        by (simp add: sv)
      then have "\<forall>x \<in> set (node_triangles n). GetEarlyOutFraction K (mCollector s) \<le> hit_fraction G (mRay Q) x"
        using n by (auto intro: order_trans)
      then show ?thesis
        using False Cons.IH(3) [OF c] by (auto simp: stack_triangles_def)
    qed
  }
qed

text \<open>
  What a walk has done when it has added the hits \<open>new\<close> to a collector that was \<open>c\<close>, and \<open>T\<close>
  are the triangles it had to look at: the hits were reported one after the other, each the
  hit of a triangle of \<open>T\<close> that is not skipped; and unless the collector wants to stop, every
  triangle of \<open>T\<close> that is not skipped and lies below the early out fraction that the collector
  has in the end has been reported.
\<close>

definition walked ::
  "constants \<Rightarrow> ('f :: {linorder, zero}, 'v, 'box) ray_geometry \<Rightarrow> ('c, 'f, 'bid) collector_class
     \<Rightarrow> ('f, 'v, 'box) ray_query \<Rightarrow> (nat \<times> nat \<times> 'v triangle) list \<Rightarrow> 'c
     \<Rightarrow> ('f, 'bid) RayCastResult list \<Rightarrow> bool" where
  "walked C G K Q T c new =
     (reported K (hit_of C G Q T) c new
      \<and> (\<not> ShouldEarlyOut K (add_hits K new c)
           \<longrightarrow> all_reported C G Q T (GetEarlyOutFraction K (add_hits K new c)) new))"

lemma all_reported_weaken:
  assumes "all_reported C G Q T bound hits" "set T \<subseteq> set T'" "set hits \<subseteq> set hits'"
    "bound' \<le> bound"
    "\<forall>x \<in> set T'. x \<notin> set T \<longrightarrow> bound' \<le> hit_fraction G (mRay Q) x"
  shows "all_reported C G Q T' bound' hits'"
  unfolding all_reported_iff
proof (intro ballI impI)
  fix x
  assume x: "x \<in> set T'"
    and b: "\<not> skipped G (mRay Q) (mBackFaceMode Q) (snd (snd x)) \<and> hit_fraction G (mRay Q) x < bound'"
  have "x \<in> set T"
  proof (rule ccontr)
    assume "x \<notin> set T"
    then have "bound' \<le> hit_fraction G (mRay Q) x" using assms(5) x by blast
    then show False using b by (meson leD)
  qed
  moreover have "hit_fraction G (mRay Q) x < bound" using b assms(4) by auto
  ultimately obtain h where "h \<in> set hits" "mFraction h = hit_fraction G (mRay Q) x"
    "mSubShapeID2 h = sub_shape_id C (mTriangleBlockIDBits Q) (mSubShapeIDCreator Q) x"
    using assms(1) b unfolding all_reported_iff by blast
  then show "\<exists>h \<in> set hits'. mFraction h = hit_fraction G (mRay Q) x
      \<and> mSubShapeID2 h = sub_shape_id C (mTriangleBlockIDBits Q) (mSubShapeIDCreator Q) x"
    using assms(3) by blast
qed

lemma WalkTree_collector:
  fixes K :: "('c, 'f :: {linorder, zero}, 'bid) collector_class"
    and s :: "('c \<times> ('f, 'bid) RayCastResult list, 'f) CastRayVisitor"
    and stack :: "('box, 'v) node list"
  assumes "V = CastRayVisitor C G (logging K) Q"
    "early_out_decreasing K"
    "list_all (conservative G (mRay Q)) stack"
    "covered G (mRay Q) (mDistanceStack s) (tl stack)"
  shows "\<exists>new. mCollector (snd (WalkTree V stack s))
             = (add_hits K new (fst (mCollector s)), snd (mCollector s) @ new)
      \<and> walked C G K Q (stack_triangles stack) (fst (mCollector s)) new"
  using assms
proof (induction V stack s rule: WalkTree.induct)
  case (1 V s)
  show ?case
    by (intro exI [of _ "[]"])
       (simp add: add_hits_def walked_def all_reported_def stack_triangles_def)
next
  case (2 V block_id triangles rest s)
  note V = "2.prems"(1) and dec = "2.prems"(2)
  obtain c log where cl: "mCollector s = (c, log)" by (cases "mCollector s")
  let ?T = "stack_triangles (Leaf block_id triangles # rest)"
  let ?L = "node_triangles (Leaf block_id triangles :: ('box, 'v) node)"
  from report_leaf_logging [OF dec, of C G Q block_id triangles c log] obtain new1 where
    leaf: "report_leaf C G (logging K) Q block_id triangles (c, log) = (add_hits K new1 c, log @ new1)"
    and r1: "reported K (hit_of C G Q ?L) c new1"
    and a1: "all_reported C G Q ?L (GetEarlyOutFraction K (add_hits K new1 c)) new1"
    by blast
  let ?c1 = "add_hits K new1 c"
  let ?s1 = "s\<lparr>mCollector := (?c1, log @ new1)\<rparr>"
  have vt: "VisitTriangles V s triangles block_id = ?s1"
    by (simp add: V VisitTriangles_report_leaf cl leaf)
  have ab: "ShouldAbort V ?s1 = ShouldEarlyOut K ?c1"
    by (simp add: V CastRayVisitor_def logging_def)
  have T: "set ?T = set ?L \<union> set (stack_triangles rest)"
    by (simp add: stack_triangles_def)
  have r1': "reported K (hit_of C G Q ?T) c new1"
    using r1 by (rule reported_mono) (rule hit_of_mono [rotated], assumption, use T in blast)
  have cov: "covered G (mRay Q) (mDistanceStack ?s1) rest"
    using "2.prems"(4) by simp
  show ?case
  proof (cases "ShouldEarlyOut K ?c1")
    case True
    have w: "snd (WalkTree V (Leaf block_id triangles # rest) s) = ?s1"
      using True by (simp add: vt ab Let_def)
    show ?thesis
      unfolding w using True r1'
      by (intro exI [of _ new1]) (simp add: cl walked_def)
  next
    case False
    let ?next = "next_node V ?s1 rest"
    have w: "snd (WalkTree V (Leaf block_id triangles # rest) s) = snd (WalkTree V ?next ?s1)"
      using False by (simp add: vt ab Let_def)
    note nn = next_node_collector [OF V cov]
    have cons: "list_all (conservative G (mRay Q)) ?next"
      using "2.prems"(3) nn(2) unfolding list_all_iff by auto
    have na: "\<not> ShouldAbort V ?s1" using False by (simp add: ab)
    from "2.IH" [OF vt [symmetric], unfolded vt, OF na V dec cons covered_tl [OF nn(1)]]
    obtain new2 where
      f: "mCollector (snd (WalkTree V ?next ?s1)) = (add_hits K new2 ?c1, (log @ new1) @ new2)"
      and w2: "walked C G K Q (stack_triangles ?next) ?c1 new2"
      by auto
    let ?c2 = "add_hits K new2 ?c1"
    from w2 have r2: "reported K (hit_of C G Q (stack_triangles ?next)) ?c1 new2"
      by (simp add: walked_def)
    have sub: "set (stack_triangles ?next) \<subseteq> set ?T"
      using stack_triangles_mono [OF nn(2)] T by blast
    have r2': "reported K (hit_of C G Q ?T) ?c1 new2"
      using r2 by (rule reported_mono) (rule hit_of_mono [OF sub])
    have rep: "reported K (hit_of C G Q ?T) c (new1 @ new2)"
      using r1' r2' by (simp add: reported_append)
    have le: "GetEarlyOutFraction K ?c2 \<le> GetEarlyOutFraction K ?c1"
      using dec r2 by (rule early_out_add_hits)
    have e1: "GetEarlyOutFraction (logging K) (mCollector ?s1) = GetEarlyOutFraction K ?c1"
      by (simp add: logging_def)
    have all: "all_reported C G Q ?T (GetEarlyOutFraction K ?c2) (new1 @ new2)"
      if live: "\<not> ShouldEarlyOut K ?c2"
      unfolding all_reported_iff
    proof (intro ballI impI)
      fix x
      assume x: "x \<in> set ?T"
        and b: "\<not> skipped G (mRay Q) (mBackFaceMode Q) (snd (snd x))
                \<and> hit_fraction G (mRay Q) x < GetEarlyOutFraction K ?c2"
      from b le have b1: "hit_fraction G (mRay Q) x < GetEarlyOutFraction K ?c1" by auto
      consider "x \<in> set ?L" | "x \<in> set (stack_triangles ?next)"
        | "x \<in> set (stack_triangles rest)" "x \<notin> set (stack_triangles ?next)"
        using x T by blast
      then show "\<exists>h \<in> set (new1 @ new2). mFraction h = hit_fraction G (mRay Q) x
          \<and> mSubShapeID2 h = sub_shape_id C (mTriangleBlockIDBits Q) (mSubShapeIDCreator Q) x"
      proof cases
        case 1
        then show ?thesis using a1 b b1 unfolding all_reported_iff by auto
      next
        case 2
        then show ?thesis using w2 live b unfolding walked_def all_reported_iff by auto
      next
        case 3
        then have "GetEarlyOutFraction K ?c1 \<le> hit_fraction G (mRay Q) x"
          using nn(3) e1 by auto
        then show ?thesis using b1 by simp
      qed
    qed
    show ?thesis
      unfolding w using rep all
      by (intro exI [of _ "new1 @ new2"]) (simp add: f cl walked_def add_hits_append)
  qed
next
  case (3 V children rest s)
  note V = "3.prems"(1) and dec = "3.prems"(2)
  obtain c log where cl: "mCollector s = (c, log)" by (cases "mCollector s")
  let ?e = "GetEarlyOutFraction K c"
  let ?bounds = "map fst children"
  let ?r = "RayVisitNodes G (mRay Q) ?e (mDistanceStack s) ?bounds (length rest)"
  let ?s1 = "s\<lparr>mDistanceStack := fst ?r\<rparr>"
  let ?sel = "snd ?r"
  let ?pushed = "push_children children ?sel rest"
  let ?T = "stack_triangles (Inner children # rest)"
  have vn: "VisitNodes V s ?bounds (length rest) = (?s1, ?sel)"
    by (simp add: V CastRayVisitor_def Let_def logging_def cl)
  have ab: "ShouldAbort V ?s1 = ShouldEarlyOut K c"
    by (simp add: V CastRayVisitor_def logging_def cl)
  have four: "length ?bounds \<le> 4" using "3.prems"(3) by simp
  note rv = RayVisitNodes_spec [OF four, where G = G and inRay = "mRay Q" and f = ?e
      and d = "mDistanceStack s" and base = "length rest"]
  have child: "conservative G (mRay Q) (snd ch)
      \<and> (\<forall>x \<in> set (node_triangles (snd ch)). box_distance G (mRay Q) (fst ch) \<le> hit_fraction G (mRay Q) x)"
    if "ch \<in> set children" for ch
    using "3.prems"(3) that by (auto simp: list_all_iff)
  have sel_lt: "\<forall>i \<in> set ?sel. i < length children" using rv(2) by simp
  have lanes: "lanes (length children) ?sel = ?sel"
  proof -
    have "filter (\<lambda>i. i < length children) ?sel = ?sel"
      using sel_lt by (simp only: filter_id_conv)
    then show ?thesis
      using rv(1) by (simp only: lanes_def) (simp add: distinct_remdups_id)
  qed
  have pushed: "?pushed = rev (map (\<lambda>i. snd (children ! i)) ?sel) @ rest"
    by (simp add: push_children_def lanes)
  have set_pushed: "set ?pushed = (\<lambda>i. snd (children ! i)) ` set ?sel \<union> set rest"
    unfolding pushed by simp
  have sub: "set (stack_triangles ?pushed) \<subseteq> set ?T"
  proof
    fix x assume "x \<in> set (stack_triangles ?pushed)"
    then obtain n where n: "n \<in> set ?pushed" "x \<in> set (node_triangles n)"
      by (auto simp: stack_triangles_def)
    from n(1) consider i where "i \<in> set ?sel" "n = snd (children ! i)" | "n \<in> set rest"
      unfolding set_pushed by blast
    then show "x \<in> set ?T"
    proof cases
      case 1
      then have "children ! i \<in> set children" using sel_lt by simp
      then show ?thesis using n(2) 1(2) by (auto simp: stack_triangles_def)
    next
      case 2
      then show ?thesis using n(2) by (auto simp: stack_triangles_def)
    qed
  qed
  have dropped: "?e \<le> hit_fraction G (mRay Q) x"
    if x: "x \<in> set ?T" "x \<notin> set (stack_triangles ?pushed)" for x
  proof -
    from x(1) consider ch where "ch \<in> set children" "x \<in> set (node_triangles (snd ch))"
      | "x \<in> set (stack_triangles rest)"
      by (auto simp: stack_triangles_def)
    then show ?thesis
    proof cases
      case 1
      then obtain i where i: "i < length children" "ch = children ! i"
        by (metis in_set_conv_nth)
      have "i \<notin> set ?sel"
      proof
        assume "i \<in> set ?sel"
        then have "snd ch \<in> set ?pushed" unfolding set_pushed i(2) by blast
        then show False using 1(2) x(2) by (auto simp: stack_triangles_def)
      qed
      then have "\<not> box_distance G (mRay Q) (?bounds ! i) < ?e"
        using rv(4) i(1) by simp
      then have "?e \<le> box_distance G (mRay Q) (fst ch)"
        using i by simp
      also have "\<dots> \<le> hit_fraction G (mRay Q) x"
        using child [OF 1(1)] 1(2) by blast
      finally show ?thesis .
    next
      case 2
      then have "x \<in> set (stack_triangles ?pushed)"
        unfolding pushed by (auto simp: stack_triangles_def)
      then show ?thesis using x(2) by simp
    qed
  qed
  show ?case
  proof (cases "ShouldEarlyOut K c")
    case True
    have w: "snd (WalkTree V (Inner children # rest) s) = ?s1"
      using True by (simp add: vn ab Let_def)
    show ?thesis
      unfolding w using True
      by (intro exI [of _ "[]"]) (simp add: cl walked_def add_hits_def)
  next
    case False
    let ?next = "next_node V ?s1 ?pushed"
    have w: "snd (WalkTree V (Inner children # rest) s) = snd (WalkTree V ?next ?s1)"
      using False by (simp add: vn ab Let_def)
    have "covered G (mRay Q) (mDistanceStack s) rest" using "3.prems"(4) by simp
    then have cov_rest: "covered G (mRay Q) (fst ?r) rest"
      using covered_cong [of rest "fst ?r" "mDistanceStack s" G "mRay Q"] rv(5) by simp
    have "covered G (mRay Q) (fst ?r) (rev (map (\<lambda>i. snd (children ! i)) ?sel) @ rest)"
      using cov_rest
    proof (rule covered_push, intro allI impI ballI)
      fix j x
      assume j: "j < length (map (\<lambda>i. snd (children ! i)) ?sel)"
        and x: "x \<in> set (node_triangles (map (\<lambda>i. snd (children ! i)) ?sel ! j))"
      from j have j': "j < length ?sel" by simp
      then have lt: "?sel ! j < length children" using sel_lt by (metis nth_mem)
      have "fst ?r (length rest + j) = box_distance G (mRay Q) (?bounds ! (?sel ! j))"
        using rv(3) j' by blast
      also have "\<dots> = box_distance G (mRay Q) (fst (children ! (?sel ! j)))"
        using lt by simp
      also have "\<dots> \<le> hit_fraction G (mRay Q) x"
        using child [of "children ! (?sel ! j)"] lt x j' by simp
      finally show "fst ?r (length rest + j) \<le> hit_fraction G (mRay Q) x" .
    qed
    then have cov: "covered G (mRay Q) (mDistanceStack ?s1) ?pushed"
      by (simp add: pushed)
    note nn = next_node_collector [OF V cov]
    have "conservative G (mRay Q) (snd (children ! i))" if "i \<in> set ?sel" for i
      using child [of "children ! i"] sel_lt that by simp
    moreover have "\<forall>n \<in> set rest. conservative G (mRay Q) n"
      using "3.prems"(3) by (simp add: list_all_iff)
    ultimately have cons_pushed: "list_all (conservative G (mRay Q)) ?pushed"
      unfolding list_all_iff set_pushed by blast
    have cons: "list_all (conservative G (mRay Q)) ?next"
      using cons_pushed nn(2) unfolding list_all_iff by auto
    have na: "\<not> ShouldAbort V ?s1" using False by (simp add: ab)
    have c1: "mCollector ?s1 = (c, log)" by (simp add: cl)
    from "3.IH" [OF refl refl, unfolded vn fst_conv snd_conv, OF na V dec cons covered_tl [OF nn(1)]]
    obtain new where
      f: "mCollector (snd (WalkTree V ?next ?s1)) = (add_hits K new c, log @ new)"
      and w2: "walked C G K Q (stack_triangles ?next) c new"
      unfolding c1 by auto
    let ?c2 = "add_hits K new c"
    from w2 have r2: "reported K (hit_of C G Q (stack_triangles ?next)) c new"
      by (simp add: walked_def)
    have sub': "set (stack_triangles ?next) \<subseteq> set ?T"
      using stack_triangles_mono [OF nn(2)] sub by blast
    have rep: "reported K (hit_of C G Q ?T) c new"
      using r2 by (rule reported_mono) (rule hit_of_mono [OF sub'])
    have le: "GetEarlyOutFraction K ?c2 \<le> ?e"
      using dec r2 by (rule early_out_add_hits)
    have e1: "GetEarlyOutFraction (logging K) (mCollector ?s1) = ?e"
      by (simp add: logging_def cl)
    have all: "all_reported C G Q ?T (GetEarlyOutFraction K ?c2) new"
      if live: "\<not> ShouldEarlyOut K ?c2"
    proof -
      have a: "all_reported C G Q (stack_triangles ?next) (GetEarlyOutFraction K ?c2) new"
        using w2 live by (simp add: walked_def)
      show ?thesis
        using a sub' subset_refl order_refl
      proof (rule all_reported_weaken, intro ballI impI)
        fix x assume x: "x \<in> set ?T" "x \<notin> set (stack_triangles ?next)"
        have "?e \<le> hit_fraction G (mRay Q) x"
        proof (cases "x \<in> set (stack_triangles ?pushed)")
          case True
          then show ?thesis using nn(3) x(2) e1 by auto
        next
          case False
          then show ?thesis using dropped [OF x(1)] by simp
        qed
        then show "GetEarlyOutFraction K ?c2 \<le> hit_fraction G (mRay Q) x"
          using le by (rule order_trans [rotated])
      qed
    qed
    show ?thesis
      unfolding w using rep all
      by (intro exI [of _ new]) (simp add: f cl walked_def)
  qed
qed

lemma CastRay_collector_logging:
  fixes K :: "('c, 'f :: {linorder, zero}, 'bid) collector_class"
  shows "fst (CastRay_collector C G (logging K) root bits inRay mode creator (ioCollector, log))
       = CastRay_collector C G K root bits inRay mode creator ioCollector"
proof -
  let ?Q = "\<lparr>mRay = inRay, mBackFaceMode = mode, mTriangleBlockIDBits = bits,
           mSubShapeIDCreator = creator\<rparr>"
  let ?V1 = "CastRayVisitor C G (logging K) ?Q"
  let ?V2 = "CastRayVisitor C G K ?Q"
  define R where "R = (\<lambda>(s1 :: ('c \<times> ('f, 'bid) RayCastResult list, 'f) CastRayVisitor)
                         (s2 :: ('c, 'f) CastRayVisitor).
      mDistanceStack s1 = mDistanceStack s2 \<and> fst (mCollector s1) = mCollector s2)"
  have "R (snd (WalkTree ?V1 [root] \<lparr>mCollector = (ioCollector, log), mDistanceStack = (\<lambda>i. 0)\<rparr>))
          (snd (WalkTree ?V2 [root] \<lparr>mCollector = ioCollector, mDistanceStack = (\<lambda>i. 0)\<rparr>))"
  proof (rule WalkTree_related [where R = R, THEN conjunct2])
    show "R \<lparr>mCollector = (ioCollector, log), mDistanceStack = (\<lambda>i. 0)\<rparr>
            \<lparr>mCollector = ioCollector, mDistanceStack = (\<lambda>i. 0)\<rparr>"
      by (simp add: R_def)
    show "\<And>a b. R a b \<Longrightarrow> ShouldAbort ?V1 a = ShouldAbort ?V2 b"
      by (simp add: R_def CastRayVisitor_def logging_def)
    show "\<And>a b n. R a b \<Longrightarrow> ShouldVisitNode ?V1 a n = ShouldVisitNode ?V2 b n"
      by (simp add: R_def CastRayVisitor_def logging_def)
    show "\<And>a b bs n. R a b \<Longrightarrow> snd (VisitNodes ?V1 a bs n) = snd (VisitNodes ?V2 b bs n)
                  \<and> R (fst (VisitNodes ?V1 a bs n)) (fst (VisitNodes ?V2 b bs n))"
      by (simp add: R_def CastRayVisitor_def logging_def Let_def)
    show "\<And>a b ts n. R a b \<Longrightarrow> R (VisitTriangles ?V1 a ts n) (VisitTriangles ?V2 b ts n)"
      by (simp add: R_def VisitTriangles_report_leaf fst_report_leaf_logging)
  qed
  then show ?thesis by (simp add: CastRay_collector_def R_def)
qed

lemma CastRay_collector_early_out:
  assumes "ShouldEarlyOut K ioCollector"
  shows "CastRay_collector C G K (Inner children) bits inRay mode creator ioCollector = ioCollector"
  using assms by (simp add: CastRay_collector_def CastRayVisitor_def Let_def)

text \<open>
  C8: the whole ray cast with a collector, observed through the hits it adds. The tree has
  bounding boxes that the ray does not enter later than it hits a triangle below them and at
  most four children per node, and the collector does not raise its early out fraction when
  a hit below it is added. Then the collector ends as the collector it started as with the
  reported hits added in order; every reported hit is the hit of a triangle of the tree that
  is not skipped, with a fraction below the early out fraction that the collector had at
  that moment; and unless the collector says \<open>ShouldEarlyOut\<close> in the end, every triangle of
  the tree that is not skipped and has a fraction below the early out fraction of the end
  has been reported. With \<open>IgnoreBackFaces\<close> a triangle is skipped exactly when
  \<open>((v2 - v0) \<times> (v1 - v0)) \<cdot> direction\<close> is negative, with \<open>CollideWithBackFaces\<close> none is. A leaf
  visit reports the triangles of the leaf in their order, each against the early out
  fraction of that moment. The visitor aborts when the collector says \<open>ShouldEarlyOut\<close>, and
  the walk ends there: a cast that starts on an inner node with such a collector reports
  nothing, a walk stops after a leaf with that leaf's hits and the leaf still on the stack,
  and after an inner node with no further hit.
\<close>

theorem CastRay_collector_reports:
  fixes K :: "('c, 'f :: {linorder, zero}, 'bid) collector_class" and root :: "('box, 'v) node"
  assumes "conservative G inRay root" and "early_out_decreasing K"
  shows "(\<exists>hits.
       CastRay_collector C G (logging K) root block_id_bits inRay inBackFaceMode
           inSubShapeIDCreator (ioCollector, [])
         = (CastRay_collector C G K root block_id_bits inRay inBackFaceMode
              inSubShapeIDCreator ioCollector, hits)
       \<and> CastRay_collector C G K root block_id_bits inRay inBackFaceMode
              inSubShapeIDCreator ioCollector = add_hits K hits ioCollector
       \<and> reported K
           (hit_of C G \<lparr>mRay = inRay, mBackFaceMode = inBackFaceMode,
                        mTriangleBlockIDBits = block_id_bits,
                        mSubShapeIDCreator = inSubShapeIDCreator\<rparr> (node_triangles root))
           ioCollector hits
       \<and> (\<not> ShouldEarlyOut K (CastRay_collector C G K root block_id_bits inRay inBackFaceMode
                                inSubShapeIDCreator ioCollector)
          \<longrightarrow> all_reported C G \<lparr>mRay = inRay, mBackFaceMode = inBackFaceMode,
                        mTriangleBlockIDBits = block_id_bits,
                        mSubShapeIDCreator = inSubShapeIDCreator\<rparr> (node_triangles root)
                (GetEarlyOutFraction K (CastRay_collector C G K root block_id_bits inRay
                    inBackFaceMode inSubShapeIDCreator ioCollector)) hits))
   \<and> (skipped G inRay IgnoreBackFaces tri \<longleftrightarrow> back_facing G inRay tri)
   \<and> \<not> skipped G inRay CollideWithBackFaces tri
   \<and> VisitTriangles (CastRayVisitor C G K Q) s triangles block_id
       = s\<lparr>mCollector := report_leaf C G K Q block_id triangles (mCollector s)\<rparr>
   \<and> (ShouldAbort (CastRayVisitor C G K Q) s \<longleftrightarrow> ShouldEarlyOut K (mCollector s))
   \<and> (ShouldEarlyOut K ioCollector \<longrightarrow>
        CastRay_collector C G K (Inner children) block_id_bits inRay inBackFaceMode
          inSubShapeIDCreator ioCollector = ioCollector)
   \<and> (ShouldEarlyOut K (report_leaf C G K Q block_id triangles (mCollector s)) \<longrightarrow>
        WalkTree (CastRayVisitor C G K Q) (Leaf block_id triangles # rest) s
          = (Leaf block_id triangles # rest,
             s\<lparr>mCollector := report_leaf C G K Q block_id triangles (mCollector s)\<rparr>))
   \<and> (ShouldEarlyOut K (mCollector s) \<longrightarrow>
        snd (WalkTree (CastRayVisitor C G K Q) (Inner children # rest) s)
          = fst (VisitNodes (CastRayVisitor C G K Q) s (map fst children) (length rest))
        \<and> mCollector (snd (WalkTree (CastRayVisitor C G K Q) (Inner children # rest) s))
          = mCollector s)"
proof -
  let ?Q = "\<lparr>mRay = inRay, mBackFaceMode = inBackFaceMode, mTriangleBlockIDBits = block_id_bits,
           mSubShapeIDCreator = inSubShapeIDCreator\<rparr> :: ('f, 'v, 'box) ray_query"
  let ?V = "CastRayVisitor C G (logging K) ?Q"
  let ?s = "\<lparr>mCollector = (ioCollector, [] :: ('f, 'bid) RayCastResult list),
             mDistanceStack = (\<lambda>i. 0 :: 'f)\<rparr>"
  let ?logged = "CastRay_collector C G (logging K) root block_id_bits inRay inBackFaceMode
           inSubShapeIDCreator (ioCollector, [])"
  let ?cast = "CastRay_collector C G K root block_id_bits inRay inBackFaceMode
           inSubShapeIDCreator ioCollector"
  have T: "stack_triangles [root] = node_triangles root" by (simp add: stack_triangles_def)
  have "\<exists>new. mCollector (snd (WalkTree ?V [root] ?s))
             = (add_hits K new (fst (mCollector ?s)), snd (mCollector ?s) @ new)
      \<and> walked C G K ?Q (stack_triangles [root]) (fst (mCollector ?s)) new"
    using assms by (intro WalkTree_collector) simp_all
  then obtain hits where l: "?logged = (add_hits K hits ioCollector, hits)"
    and w: "walked C G K ?Q (node_triangles root) ioCollector hits"
    unfolding T by (auto simp: CastRay_collector_def)
  have c: "?cast = add_hits K hits ioCollector"
    using CastRay_collector_logging [of C G K root block_id_bits inRay inBackFaceMode
        inSubShapeIDCreator ioCollector "[]"] l by simp
  have whole: "\<exists>hits. ?logged = (?cast, hits) \<and> ?cast = add_hits K hits ioCollector
      \<and> reported K (hit_of C G ?Q (node_triangles root)) ioCollector hits
      \<and> (\<not> ShouldEarlyOut K ?cast
          \<longrightarrow> all_reported C G ?Q (node_triangles root) (GetEarlyOutFraction K ?cast) hits)"
    using l w unfolding walked_def c by blast
  have a: "ShouldAbort (CastRayVisitor C G K Q) s' \<longleftrightarrow> ShouldEarlyOut K (mCollector s')" for s'
    by (simp add: CastRayVisitor_def)
  have n: "mCollector (fst (VisitNodes (CastRayVisitor C G K Q) s bounds n)) = mCollector s" for bounds n
    by (simp add: CastRayVisitor_def Let_def)
  have walk: "(ShouldEarlyOut K (report_leaf C G K Q block_id triangles (mCollector s)) \<longrightarrow>
        WalkTree (CastRayVisitor C G K Q) (Leaf block_id triangles # rest) s
          = (Leaf block_id triangles # rest,
             s\<lparr>mCollector := report_leaf C G K Q block_id triangles (mCollector s)\<rparr>))
   \<and> (ShouldEarlyOut K (mCollector s) \<longrightarrow>
        snd (WalkTree (CastRayVisitor C G K Q) (Inner children # rest) s)
          = fst (VisitNodes (CastRayVisitor C G K Q) s (map fst children) (length rest))
        \<and> mCollector (snd (WalkTree (CastRayVisitor C G K Q) (Inner children # rest) s))
          = mCollector s)"
    by (simp add: VisitTriangles_report_leaf a n Let_def)
  have leaf: "VisitTriangles (CastRayVisitor C G K Q) s triangles block_id
       = s\<lparr>mCollector := report_leaf C G K Q block_id triangles (mCollector s)\<rparr>"
    by (rule VisitTriangles_report_leaf)
  have early: "ShouldEarlyOut K ioCollector \<longrightarrow>
        CastRay_collector C G K (Inner children) block_id_bits inRay inBackFaceMode
          inSubShapeIDCreator ioCollector = ioCollector"
    using CastRay_collector_early_out [of K ioCollector C G children block_id_bits inRay
        inBackFaceMode inSubShapeIDCreator] by blast
  have skip: "(skipped G inRay IgnoreBackFaces tri \<longleftrightarrow> back_facing G inRay tri)
      \<and> \<not> skipped G inRay CollideWithBackFaces tri"
    by (simp add: skipped_def)
  from whole skip leaf a [of s] early walk show ?thesis
    by (intro conjI) (blast | simp)+
qed

text \<open>
  All the triangles of \<open>example_bounded_tree\<close> for a collector that keeps every hit and its
  early out fraction of 100: seven hits, that of the triangle at fraction 9 among them.
\<close>

theorem CastRay_collector_reports_witness:
  "CastRay_collector example_constants example_ray_geometry (hit_log_class 100 False (7 :: nat))
      example_bounded_tree 2 \<lparr>mOrigin = 0, mDirection = 1\<rparr> CollideWithBackFaces [] []
     = [\<lparr>mBodyID = 7, mFraction = 6, mSubShapeID2 = [False, True, False, False, False]\<rparr>,
        \<lparr>mBodyID = 7, mFraction = 1, mSubShapeID2 = [False, True, True, False, False]\<rparr>,
        \<lparr>mBodyID = 7, mFraction = 4, mSubShapeID2 = [True, False, False, False, False]\<rparr>,
        \<lparr>mBodyID = 7, mFraction = 5, mSubShapeID2 = [False, False, False, False, False]\<rparr>,
        \<lparr>mBodyID = 7, mFraction = 2, mSubShapeID2 = [False, False, True, False, False]\<rparr>,
        \<lparr>mBodyID = 7, mFraction = 9, mSubShapeID2 = [False, False, False, True, False]\<rparr>,
        \<lparr>mBodyID = 7, mFraction = 8, mSubShapeID2 = [True, True, False, False, False]\<rparr>]
   \<and> (\<exists>hits. CastRay_collector example_constants example_ray_geometry
           (logging (hit_log_class 100 False (7 :: nat)))
           example_bounded_tree 2 \<lparr>mOrigin = 0, mDirection = 1\<rparr> CollideWithBackFaces [] ([], [])
         = (CastRay_collector example_constants example_ray_geometry (hit_log_class 100 False 7)
              example_bounded_tree 2 \<lparr>mOrigin = 0, mDirection = 1\<rparr> CollideWithBackFaces [] [], hits)
       \<and> list_ex (\<lambda>h. mFraction h = 9 \<and> mSubShapeID2 h = [False, False, False, True, False]) hits)"
proof -
  let ?ray = "\<lparr>mOrigin = 0, mDirection = 1\<rparr> :: int RayCast"
  let ?K = "hit_log_class 100 False (7 :: nat) :: ((int, nat) RayCastResult list, int, nat) collector_class"
  let ?Q = "\<lparr>mRay = ?ray, mBackFaceMode = CollideWithBackFaces, mTriangleBlockIDBits = 2,
            mSubShapeIDCreator = []\<rparr> :: (int, int, int) ray_query"
  let ?cast = "CastRay_collector example_constants example_ray_geometry ?K
      example_bounded_tree 2 ?ray CollideWithBackFaces [] []"
  have bounds: "conservative example_ray_geometry ?ray example_bounded_tree"
    by code_simp
  have dec: "early_out_decreasing ?K"
    by (simp add: early_out_decreasing_def hit_log_class_def)
  have v: "?cast
     = [\<lparr>mBodyID = 7, mFraction = 6, mSubShapeID2 = [False, True, False, False, False]\<rparr>,
        \<lparr>mBodyID = 7, mFraction = 1, mSubShapeID2 = [False, True, True, False, False]\<rparr>,
        \<lparr>mBodyID = 7, mFraction = 4, mSubShapeID2 = [True, False, False, False, False]\<rparr>,
        \<lparr>mBodyID = 7, mFraction = 5, mSubShapeID2 = [False, False, False, False, False]\<rparr>,
        \<lparr>mBodyID = 7, mFraction = 2, mSubShapeID2 = [False, False, True, False, False]\<rparr>,
        \<lparr>mBodyID = 7, mFraction = 9, mSubShapeID2 = [False, False, False, True, False]\<rparr>,
        \<lparr>mBodyID = 7, mFraction = 8, mSubShapeID2 = [True, True, False, False, False]\<rparr>]"
    by code_simp
  have live: "\<not> ShouldEarlyOut ?K ?cast" and e: "GetEarlyOutFraction ?K ?cast = 100"
    by (simp_all add: hit_log_class_def)
  have x: "(0, 2, ((9, 0, 0), 0)) \<in> set (node_triangles example_bounded_tree)"
    by code_simp
  have id: "sub_shape_id example_constants 2 [] (0 :: nat, 2 :: nat, ((9 :: int, 0 :: int, 0 :: int), 0 :: u8))
      = [False, False, False, True, False]"
    by code_simp
  have fr: "hit_fraction example_ray_geometry ?ray (0 :: nat, 2 :: nat, ((9 :: int, 0 :: int, 0 :: int), 0 :: u8)) = 9"
    by (simp add: hit_fraction_def triangle_fraction_def example_ray_geometry_def)
  from CastRay_collector_reports [OF bounds dec, of example_constants 2 CollideWithBackFaces "[]" "[]",
      THEN conjunct1]
  obtain hits where l: "CastRay_collector example_constants example_ray_geometry (logging ?K)
           example_bounded_tree 2 ?ray CollideWithBackFaces [] ([], []) = (?cast, hits)"
    and a: "all_reported example_constants example_ray_geometry ?Q
              (node_triangles example_bounded_tree) (GetEarlyOutFraction ?K ?cast) hits"
    using live by blast
  have "\<exists>h \<in> set hits. mFraction h = hit_fraction example_ray_geometry ?ray (0, 2, ((9, 0, 0), 0))
      \<and> mSubShapeID2 h = sub_shape_id example_constants 2 []
            (0 :: nat, 2 :: nat, ((9 :: int, 0 :: int, 0 :: int), 0 :: u8))"
    using a [unfolded all_reported_iff e, rule_format, OF x]
    by (simp add: fr skipped_def)
  then have "list_ex (\<lambda>h. mFraction h = 9 \<and> mSubShapeID2 h = [False, False, False, True, False]) hits"
    unfolding list_ex_iff fr id .
  with l v show ?thesis by blast
qed

end
